theory Spec2Isabelle
  imports Main "HOL-Library.Multiset"
begin

section \<open>Error values\<close>

text \<open>
  The package handles values of Go's interface type \<open>error\<close>. Five shapes of error occur:
  \<^item> \<open>ErrorString a m\<close>: \<open>*errors.errorString\<close>, what \<open>errors.New\<close> returns: the pointer of
    address \<open>a\<close> to the text \<open>m\<close>;
  \<^item> \<open>Leaf i m c\<close>: a value of an error type of the user that has no \<open>Unwrap\<close> and no \<open>Is\<close>
    method, such as \<open>MyError\<close> of the tests. \<open>i\<close> identifies the value, \<open>m\<close> is the text of
    its \<open>Error()\<close> method and \<open>c\<close> tells whether its dynamic type is comparable (a slice or
    map type with an \<open>Error\<close> method is not);
  \<^item> \<open>WrapError m e\<close>: \<open>*fmt.wrapError\<close>, what \<open>fmt.Errorf\<close> returns for one \<open>%w\<close> verb;
  \<^item> \<open>WrapErrors m es\<close>: \<open>*fmt.wrapErrors\<close>, what \<open>fmt.Errorf\<close> returns for several \<open>%w\<close> verbs;
  \<^item> \<open>JoinError es\<close>: \<open>*errors.joinError\<close>, what \<open>errors.Join\<close> returns.
  The interface value \<open>nil\<close> is \<open>None\<close> of \<open>goerror option\<close>.
\<close>

datatype goerror =
    ErrorString nat string
  | Leaf nat string bool
  | WrapError string goerror
  | WrapErrors string "goerror list"
  | JoinError "goerror list"

definition newline :: string where
  "newline = [CHR 0x0A]"

fun join_lines :: "string list \<Rightarrow> string" where
  "join_lines [] = []"
| "join_lines [x] = x"
| "join_lines (x # y # ys) = x @ newline @ join_lines (y # ys)"

text \<open>The method \<open>Error()\<close> of each shape; a joined error prints one line per element.\<close>

fun Error :: "goerror \<Rightarrow> string" where
  "Error (ErrorString a m) = m"
| "Error (Leaf i m c) = m"
| "Error (WrapError m e) = m"
| "Error (WrapErrors m es) = m"
| "Error (JoinError es) = join_lines (map Error es)"

text \<open>\<open>reflectlite.TypeOf(target).Comparable()\<close>: the shapes of the standard library are
  pointers.\<close>

fun comparable :: "goerror \<Rightarrow> bool" where
  "comparable (ErrorString a m) = True"
| "comparable (Leaf i m c) = c"
| "comparable (WrapError m e) = True"
| "comparable (WrapErrors m es) = True"
| "comparable (JoinError es) = True"

text \<open>
  Go's \<open>==\<close> on two error values yields \<open>true\<close> or \<open>false\<close>, or it panics (\<open>None\<close>): on two
  values of one comparable struct type it panics when a field of interface type holds
  values that cannot be compared, and it is \<open>false\<close> of a value and itself when a field
  holds a NaN. What \<open>==\<close> does on two values of the user's error types depends on those
  types, which are not part of the package: it is the parameter \<open>eq\<close> of the model. When
  one of the operands is a pointer of the standard library, \<open>==\<close> compares the dynamic
  types and the addresses, so it never panics and holds exactly when both operands are
  the same pointer. (A wrapping error has no address in the model: it is the same pointer
  as another one when it is the same term. The theorems compare an error with itself or
  with an error of other contents only.)
\<close>

type_synonym equality = "goerror \<Rightarrow> goerror \<Rightarrow> bool option"

fun go_eq :: "equality \<Rightarrow> goerror \<Rightarrow> goerror \<Rightarrow> bool option" where
  "go_eq eq (Leaf i m c) (Leaf j n d) = eq (Leaf i m c) (Leaf j n d)"
| "go_eq eq a b = Some (a = b)"

text \<open>
  \<open>or_else x y\<close> is the result of \<open>if x { return true }\<close> followed by \<open>y\<close>: a panic of \<open>x\<close>
  is the result, \<open>y\<close> is not run when \<open>x\<close> is \<open>true\<close>.
\<close>

fun or_else :: "bool option \<Rightarrow> bool option \<Rightarrow> bool option" where
  "or_else None y = None"
| "or_else (Some True) y = Some True"
| "or_else (Some False) y = y"

text \<open>The test \<open>targetComparable && err == target\<close>.\<close>

definition equals_target :: "equality \<Rightarrow> goerror \<Rightarrow> goerror \<Rightarrow> bool \<Rightarrow> bool option" where
  "equals_target eq err target targetComparable =
     (if targetComparable then go_eq eq err target else Some False)"

text \<open>
  The unexported \<open>is\<close> of package \<open>errors\<close>: compare when the target is comparable, then
  follow \<open>Unwrap() error\<close>, or each element of \<open>Unwrap() []error\<close> in turn (the shapes of the
  model have no \<open>Is\<close> method). \<open>None\<close> is a panic of a comparison.
\<close>

fun errors_is :: "equality \<Rightarrow> goerror \<Rightarrow> goerror \<Rightarrow> bool \<Rightarrow> bool option"
  and errors_is_each :: "equality \<Rightarrow> goerror list \<Rightarrow> goerror \<Rightarrow> bool \<Rightarrow> bool option" where
  "errors_is eq (ErrorString a m) target targetComparable =
     equals_target eq (ErrorString a m) target targetComparable"
| "errors_is eq (Leaf i m c) target targetComparable =
     equals_target eq (Leaf i m c) target targetComparable"
| "errors_is eq (WrapError m e) target targetComparable =
     or_else (equals_target eq (WrapError m e) target targetComparable)
       (errors_is eq e target targetComparable)"
| "errors_is eq (WrapErrors m es) target targetComparable =
     or_else (equals_target eq (WrapErrors m es) target targetComparable)
       (errors_is_each eq es target targetComparable)"
| "errors_is eq (JoinError es) target targetComparable =
     or_else (equals_target eq (JoinError es) target targetComparable)
       (errors_is_each eq es target targetComparable)"
| "errors_is_each eq [] target targetComparable = Some False"
| "errors_is_each eq (e # es) target targetComparable =
     or_else (errors_is eq e target targetComparable)
       (errors_is_each eq es target targetComparable)"

text \<open>\<open>errors.Is(err, target)\<close>, with \<open>nil\<close> as \<open>None\<close>; the result \<open>None\<close> is a panic.\<close>

definition errors_Is :: "equality \<Rightarrow> goerror option \<Rightarrow> goerror option \<Rightarrow> bool option" where
  "errors_Is eq err target =
     (case (err, target) of
        (Some e, Some t) \<Rightarrow> errors_is eq e t (comparable t)
      | _ \<Rightarrow> Some (err = target))"

text \<open>
  \<open>errors.Join(errs...)\<close>: \<open>nil\<close> elements are dropped, and the result is \<open>nil\<close> when nothing
  is left.
\<close>

definition errors_Join :: "goerror option list \<Rightarrow> goerror option" where
  "errors_Join errs =
     (let es = List.map_filter (\<lambda>e. e) errs
      in if length es = 0 then None else Some (JoinError es))"

text \<open>
  The two calls of \<open>fmt.Errorf\<close> in \<open>done\<close>. The format \<open>"%w: %w\n%s"\<close> has two wrapping
  verbs and yields a \<open>*fmt.wrapErrors\<close> over both operands; the format \<open>"%w: %v\n%s"\<close> has
  one and yields a \<open>*fmt.wrapError\<close> over the first operand, the second operand being given
  by its \<open>%v\<close> text.
\<close>

definition Errorf_w_w_s :: "goerror \<Rightarrow> goerror \<Rightarrow> string \<Rightarrow> goerror" where
  "Errorf_w_w_s a b s = WrapErrors (Error a @ '': '' @ Error b @ newline @ s) [a, b]"

definition Errorf_w_v_s :: "goerror \<Rightarrow> string \<Rightarrow> string \<Rightarrow> goerror" where
  "Errorf_w_v_s a v s = WrapError (Error a @ '': '' @ v @ newline @ s) a"

text \<open>The package's variable \<open>ErrPanicRecovered\<close>, made by \<open>errors.New\<close>; its address is 0.\<close>

definition ErrPanicRecovered :: goerror where
  "ErrPanicRecovered = ErrorString 0 ''recovered from panic''"

section \<open>Tasks\<close>

text \<open>
  A value passed to \<open>panic\<close> is an error or some other value; another value is represented
  by the text the verb \<open>%v\<close> prints for it.
\<close>

datatype payload = ErrorValue goerror | OtherValue string

text \<open>
  A submitted function \<open>fnc\<close> is represented by the way it ends: it returns an error or
  \<open>nil\<close>, or it panics with a payload; in the second case the string is what
  \<open>debug.Stack()\<close> yields when \<open>done\<close> recovers the panic.
\<close>

datatype outcome = Return "goerror option" | Panic payload string

text \<open>The error that \<open>done\<close> builds from a recovered panic value (the type switch).\<close>

definition recovered :: "payload \<Rightarrow> string \<Rightarrow> goerror" where
  "recovered msg stack =
     (case msg of
        ErrorValue val \<Rightarrow> Errorf_w_w_s ErrPanicRecovered val stack
      | OtherValue val \<Rightarrow> Errorf_w_v_s ErrPanicRecovered val stack)"

text \<open>
  The places at which a goroutine spawned by \<open>Go\<close> or \<open>TryGo\<close> can stand:
  \<^item> \<open>AtAcquire\<close>: before \<open>g.semaphore <- semaphoreToken{}\<close> (goroutines of \<open>Go\<close> only);
  \<^item> \<open>AtFnc\<close>: before \<open>err := fnc()\<close>;
  \<^item> \<open>AtSend err\<close>: before \<open>g.errorChan <- err\<close> in the goroutine's body;
  \<^item> \<open>AtSendRecovered err\<close>: before \<open>g.errorChan <- err\<close> in \<open>done\<close>;
  \<^item> \<open>AtRelease\<close>: before \<open><-g.semaphore\<close> in \<open>done\<close>;
  \<^item> \<open>AtWgDone\<close>: before \<open>g.wg.Done()\<close>;
  \<^item> \<open>Exited\<close>: the goroutine has ended.
\<close>

datatype task_pc =
    AtAcquire
  | AtFnc
  | AtSend goerror
  | AtSendRecovered goerror
  | AtRelease
  | AtWgDone
  | Exited

text \<open>
  The places of the goroutine \<open>listenToErrors\<close>: not spawned, in the \<open>range\<close> loop,
  before \<open>g.finishedChan <- accumulatedErrors\<close>, before the deferred
  \<open>close(g.finishedChan)\<close>, ended.
\<close>

datatype listener_pc = NotStarted | Listening | Sending | Closing | Finished

text \<open>The places of a caller inside \<open>Wait\<close>: \<open>g.wg.Wait()\<close>, \<open>close(g.errorChan)\<close>,
  \<open>errs := <-g.finishedChan\<close>.\<close>

datatype wait_pc = AtWgWait | AtClose | AtRecv

section \<open>The group and its goroutines\<close>

text \<open>
  The fields of \<open>SyncGroup\<close>, followed by the goroutines that work on them. The counter of
  the \<open>sync.WaitGroup\<close> is an integer; \<open>semaphore\<close> is \<open>None\<close> for the \<open>nil\<close> channel and
  \<open>Some (c, n)\<close> for a buffered channel of capacity \<open>c\<close> holding \<open>n\<close> tokens; the two
  unbuffered channels hold nothing, so only whether they are closed is recorded;
  \<open>listeningRoutineStarter\<close> is the \<open>sync.Once\<close>, true once its function has run.
  \<open>tasks\<close> lists every goroutine ever spawned by \<open>Go\<close> or \<open>TryGo\<close>, in the order of
  submission, \<open>listener\<close> is the place of the goroutine \<open>listenToErrors\<close> and
  \<open>accumulatedErrors\<close> its local variable, \<open>waiter\<close> is the place of the
  caller inside \<open>Wait\<close> (\<open>None\<close> outside of it), and \<open>crashed\<close> says that a panic has
  escaped a goroutine and ended the process.
\<close>

record system =
  wg :: int
  semaphore :: "(nat \<times> nat) option"
  finishedChan_closed :: bool
  errorChan_closed :: bool
  listeningStarted :: bool
  listeningRoutineStarter :: bool
  listener :: listener_pc
  accumulatedErrors :: "goerror list"
  tasks :: "(outcome \<times> task_pc) list"
  waiter :: "wait_pc option"
  crashed :: bool

text \<open>
  What a call of a method does to its caller: it returns a value and leaves a state, it
  stands at a later line of the method, it panics, or it cannot proceed for now.
\<close>

datatype 'a call = Returned 'a system | Continues system | Panicked string | Blocks

definition New :: system where
  "New = \<lparr> wg = 0, semaphore = None, finishedChan_closed = False, errorChan_closed = False,
           listeningStarted = False, listeningRoutineStarter = False,
           listener = NotStarted, accumulatedErrors = [], tasks = [], waiter = None,
           crashed = False \<rparr>"

definition startListening :: "system \<Rightarrow> system" where
  "startListening s =
     (if listeningRoutineStarter s then s
      else s\<lparr> listeningRoutineStarter := True, listeningStarted := True,
              listener := Listening, accumulatedErrors := [] \<rparr>)"

definition Go :: "outcome \<Rightarrow> system \<Rightarrow> unit call" where
  "Go fnc s =
     (let s1 = startListening s;
          s2 = s1\<lparr> wg := wg s1 + 1 \<rparr>
      in Returned () (s2\<lparr> tasks := tasks s2 @ [(fnc, AtAcquire)] \<rparr>))"

definition TryGo :: "outcome \<Rightarrow> system \<Rightarrow> bool call" where
  "TryGo fnc s =
     (case (case semaphore s of
              None \<Rightarrow> Some s
            | Some (c, n) \<Rightarrow> if n < c then Some (s\<lparr> semaphore := Some (c, Suc n) \<rparr>) else None) of
        None \<Rightarrow> Returned False s
      | Some s0 \<Rightarrow>
          (let s1 = startListening s0;
               s2 = s1\<lparr> wg := wg s1 + 1 \<rparr>
           in Returned True (s2\<lparr> tasks := tasks s2 @ [(fnc, AtFnc)] \<rparr>)))"

definition SetLimit :: "int \<Rightarrow> system \<Rightarrow> unit call" where
  "SetLimit limit s =
     (if listeningStarted s then Panicked ''cannot set limit after starting goroutines''
      else if limit \<le> 0 then Returned () (s\<lparr> semaphore := None \<rparr>)
      else Returned () (s\<lparr> semaphore := Some (nat limit, 0) \<rparr>))"

text \<open>The last lines of \<open>Wait\<close>, once \<open>errs\<close> has been received.\<close>

definition Wait_result :: "goerror list \<Rightarrow> goerror option" where
  "Wait_result errs = (if length errs = 0 then None else errors_Join (map Some errs))"

text \<open>
  One step of a caller of \<open>Wait\<close>. Outside of \<open>Wait\<close> the step is the call itself, up to
  the test of \<open>listeningStarted\<close>. \<open>g.wg.Wait()\<close> proceeds when the counter is zero.
  Closing a closed channel panics. The receive from the unbuffered \<open>finishedChan\<close> meets the
  listener at its send, or yields the \<open>nil\<close> slice when the channel is closed.
\<close>

definition Wait_step :: "system \<Rightarrow> goerror option call" where
  "Wait_step s =
     (case waiter s of
        None \<Rightarrow>
          if \<not> listeningStarted s then Returned None s
          else Continues (s\<lparr> waiter := Some AtWgWait \<rparr>)
      | Some AtWgWait \<Rightarrow>
          if wg s = 0 then Continues (s\<lparr> waiter := Some AtClose \<rparr>) else Blocks
      | Some AtClose \<Rightarrow>
          if errorChan_closed s then Panicked ''close of closed channel''
          else Continues (s\<lparr> errorChan_closed := True, waiter := Some AtRecv \<rparr>)
      | Some AtRecv \<Rightarrow>
          if listener s = Sending then
            Returned (Wait_result (accumulatedErrors s))
              (s\<lparr> listener := Closing, waiter := None \<rparr>)
          else if finishedChan_closed s then
            Returned (Wait_result []) (s\<lparr> waiter := None \<rparr>)
          else Blocks)"

text \<open>
  A send on the unbuffered \<open>errorChan\<close>. On a closed channel it panics: in the goroutine's
  body that panic is recovered by \<open>done\<close>, which sends again on the same closed channel,
  and the panic of \<open>done\<close> is recovered by nobody, so either way the process ends. On an
  open channel the send meets the listener in its loop, which appends the error.
\<close>

definition send_error :: "goerror \<Rightarrow> system \<Rightarrow> system option option" where
  "send_error err s =
     (if errorChan_closed s then Some None
      else if listener s = Listening then
        Some (Some (s\<lparr> accumulatedErrors := accumulatedErrors s @ [err] \<rparr>))
      else None)"

text \<open>
  One step of a spawned goroutine standing at \<open>pc\<close>, whose function ends as \<open>fnc\<close> says:
  \<open>None\<close> when it cannot proceed, otherwise the new state and the goroutine's new place.
\<close>

fun task_move :: "outcome \<Rightarrow> task_pc \<Rightarrow> system \<Rightarrow> (system \<times> task_pc) option" where
  "task_move fnc AtAcquire s =
     (case semaphore s of
        None \<Rightarrow> Some (s, AtFnc)
      | Some (c, n) \<Rightarrow>
          if n < c then Some (s\<lparr> semaphore := Some (c, Suc n) \<rparr>, AtFnc) else None)"
| "task_move fnc AtFnc s =
     (case fnc of
        Return None \<Rightarrow> Some (s, AtRelease)
      | Return (Some err) \<Rightarrow> Some (s, AtSend err)
      | Panic msg stack \<Rightarrow> Some (s, AtSendRecovered (recovered msg stack)))"
| "task_move fnc (AtSend err) s =
     (case send_error err s of
        None \<Rightarrow> None
      | Some None \<Rightarrow> Some (s\<lparr> crashed := True \<rparr>, AtSend err)
      | Some (Some s') \<Rightarrow> Some (s', AtRelease))"
| "task_move fnc (AtSendRecovered err) s =
     (case send_error err s of
        None \<Rightarrow> None
      | Some None \<Rightarrow> Some (s\<lparr> crashed := True \<rparr>, AtSendRecovered err)
      | Some (Some s') \<Rightarrow> Some (s', AtRelease))"
| "task_move fnc AtRelease s =
     (case semaphore s of
        None \<Rightarrow> Some (s, AtWgDone)
      | Some (c, n) \<Rightarrow>
          if 0 < n then Some (s\<lparr> semaphore := Some (c, n - 1) \<rparr>, AtWgDone) else None)"
| "task_move fnc AtWgDone s =
     (if wg s - 1 < 0 then Some (s\<lparr> crashed := True \<rparr>, AtWgDone)
      else Some (s\<lparr> wg := wg s - 1 \<rparr>, Exited))"
| "task_move fnc Exited s = None"

definition task_step :: "nat \<Rightarrow> system \<Rightarrow> system option" where
  "task_step i s =
     (if i < length (tasks s) then
        (case task_move (fst (tasks s ! i)) (snd (tasks s ! i)) s of
           None \<Rightarrow> None
         | Some (s', pc) \<Rightarrow> Some (s'\<lparr> tasks := (tasks s')[i := (fst (tasks s ! i), pc)] \<rparr>))
      else None)"

text \<open>
  One step of \<open>listenToErrors\<close>: the loop ends when \<open>errorChan\<close> is closed; the send on
  \<open>finishedChan\<close> waits for the receive in \<open>Wait\<close> (and would panic on a closed channel);
  the deferred function closes \<open>finishedChan\<close>.
\<close>

definition listener_step :: "system \<Rightarrow> system option" where
  "listener_step s =
     (case listener s of
        Listening \<Rightarrow>
          if errorChan_closed s then Some (s\<lparr> listener := Sending \<rparr>) else None
      | Sending \<Rightarrow>
          if finishedChan_closed s then Some (s\<lparr> crashed := True \<rparr>) else None
      | Closing \<Rightarrow> Some (s\<lparr> finishedChan_closed := True, listener := Finished \<rparr>)
      | _ \<Rightarrow> None)"

section \<open>Runs\<close>

text \<open>
  A run is a list of events: the calls of one caller, who is either inside \<open>Wait\<close> or free
  to call a method, and the steps of the goroutines in any interleaving. A call that panics
  leaves the group as it was (the caller may recover it, as the tests do); an event that
  cannot proceed is skipped; after a crash nothing happens any more.
\<close>

datatype event =
    CallSetLimit int
  | CallGo outcome
  | CallTryGo outcome
  | StepWait
  | StepTask nat
  | StepListener

definition state_of :: "'a call \<Rightarrow> system \<Rightarrow> system" where
  "state_of c s = (case c of Returned v s' \<Rightarrow> s' | Continues s' \<Rightarrow> s' | _ \<Rightarrow> s)"

fun apply_event :: "event \<Rightarrow> system \<Rightarrow> system" where
  "apply_event (CallSetLimit n) s =
     (if crashed s \<or> waiter s \<noteq> None then s else state_of (SetLimit n s) s)"
| "apply_event (CallGo fnc) s =
     (if crashed s \<or> waiter s \<noteq> None then s else state_of (Go fnc s) s)"
| "apply_event (CallTryGo fnc) s =
     (if crashed s \<or> waiter s \<noteq> None then s else state_of (TryGo fnc s) s)"
| "apply_event StepWait s =
     (if crashed s then s
      else case Wait_step s of
             Panicked m \<Rightarrow> s\<lparr> waiter := None \<rparr>
           | c \<Rightarrow> state_of c s)"
| "apply_event (StepTask i) s =
     (if crashed s then s else case task_step i s of None \<Rightarrow> s | Some s' \<Rightarrow> s')"
| "apply_event StepListener s =
     (if crashed s then s else case listener_step s of None \<Rightarrow> s | Some s' \<Rightarrow> s')"

fun exec :: "event list \<Rightarrow> system \<Rightarrow> system" where
  "exec [] s = s"
| "exec (ev # evs) s = exec evs (apply_event ev s)"

section \<open>Well-formed states\<close>

text \<open>
  A goroutine is live until it has called \<open>g.wg.Done()\<close>. \<open>failure fnc\<close> is the error that
  a task ending as \<open>fnc\<close> has to report, if any, and \<open>reported\<close> is what a goroutine has
  handed to the listener so far: its failure, once it stands behind its send. A goroutine
  standing at a send holds the error of its own function.
\<close>

fun live :: "outcome \<times> task_pc \<Rightarrow> bool" where
  "live (fnc, pc) = (pc \<noteq> Exited)"

fun failure :: "outcome \<Rightarrow> goerror list" where
  "failure (Return None) = []"
| "failure (Return (Some err)) = [err]"
| "failure (Panic msg stack) = [recovered msg stack]"

fun reported :: "outcome \<times> task_pc \<Rightarrow> goerror list" where
  "reported (fnc, pc) = (if pc = AtRelease \<or> pc = AtWgDone \<or> pc = Exited then failure fnc else [])"

fun task_ok :: "outcome \<times> task_pc \<Rightarrow> bool" where
  "task_ok (fnc, AtSend err) = (fnc = Return (Some err))"
| "task_ok (fnc, AtSendRecovered err) =
     (case fnc of Panic msg stack \<Rightarrow> err = recovered msg stack | _ \<Rightarrow> False)"
| "task_ok (fnc, pc) = True"

definition reports :: "(outcome \<times> task_pc) list \<Rightarrow> goerror multiset" where
  "reports ts = mset (concat (map reported ts))"

text \<open>
  The invariant of all runs: the listener runs exactly when a task has been submitted; the
  counter of the wait group is the number of live goroutines; the listener's list holds
  exactly the reported failures; \<open>errorChan\<close> is closed once a caller of \<open>Wait\<close> has passed
  \<open>close(g.errorChan)\<close>, and \<open>finishedChan\<close> once the listener has ended; a caller behind
  \<open>g.wg.Wait()\<close> sees the counter at zero.
\<close>

definition inv_flags :: "system \<Rightarrow> bool" where
  "inv_flags s =
     (listeningStarted s = (tasks s \<noteq> []) \<and> listeningRoutineStarter s = listeningStarted s
      \<and> (listener s = NotStarted) = (\<not> listeningStarted s)
      \<and> (listener s = NotStarted \<longrightarrow> accumulatedErrors s = []))"

definition inv_tasks :: "system \<Rightarrow> bool" where
  "inv_tasks s = (wg s = int (length (filter live (tasks s))) \<and> list_all task_ok (tasks s))"

definition inv_listener :: "system \<Rightarrow> bool" where
  "inv_listener s =
     ((listener s = Listening \<or> listener s = Sending \<longrightarrow>
         mset (accumulatedErrors s) = reports (tasks s))
      \<and> (finishedChan_closed s = (listener s = Finished))
      \<and> (errorChan_closed s = (waiter s = Some AtRecv \<or> listener s = Closing \<or> listener s = Finished))
      \<and> (listener s = Sending \<longrightarrow> waiter s = Some AtRecv)
      \<and> (waiter s = Some AtRecv \<longrightarrow> listener s = Listening \<or> listener s = Sending))"

definition inv_waiter :: "system \<Rightarrow> bool" where
  "inv_waiter s =
     ((waiter s \<noteq> None \<longrightarrow> listeningStarted s)
      \<and> (waiter s = Some AtClose \<or> waiter s = Some AtRecv \<longrightarrow> wg s = 0))"

definition invariant :: "system \<Rightarrow> bool" where
  "invariant s = (inv_flags s \<and> inv_tasks s \<and> inv_listener s \<and> inv_waiter s)"

section \<open>Observations on runs\<close>

text \<open>
  An event submits a task when it is a call of \<open>Go\<close>, or a call of \<open>TryGo\<close> that returns
  \<open>true\<close>; \<open>submissions\<close> counts the tasks submitted in a run.
\<close>

fun submitted :: "event \<Rightarrow> system \<Rightarrow> bool" where
  "submitted (CallGo fnc) s = (\<not> crashed s \<and> waiter s = None)"
| "submitted (CallTryGo fnc) s =
     (\<not> crashed s \<and> waiter s = None
      \<and> (case TryGo fnc s of Returned ok s' \<Rightarrow> ok | _ \<Rightarrow> False))"
| "submitted ev s = False"

fun submissions :: "event list \<Rightarrow> system \<Rightarrow> nat" where
  "submissions [] s = 0"
| "submissions (ev # evs) s =
     (if submitted ev s then 1 else 0) + submissions evs (apply_event ev s)"

text \<open>The steps of the goroutines, as opposed to the calls of the caller.\<close>

fun goroutine_step :: "event \<Rightarrow> bool" where
  "goroutine_step (StepTask i) = True"
| "goroutine_step StepListener = True"
| "goroutine_step ev = False"

text \<open>
  A group is drained when all its goroutines have ended and \<open>errorChan\<close> is closed; it is
  closed for good when \<open>errorChan\<close> is closed and no caller of \<open>Wait\<close> stands at the
  receive from \<open>finishedChan\<close>.
\<close>

definition drained :: "system \<Rightarrow> bool" where
  "drained s = (listeningStarted s \<and> wg s = 0 \<and> errorChan_closed s
                \<and> list_all (\<lambda>t. snd t = Exited) (tasks s))"

definition closed_for_good :: "system \<Rightarrow> bool" where
  "closed_for_good s = (listeningStarted s \<and> errorChan_closed s \<and> waiter s \<noteq> Some AtRecv)"

text \<open>
  The errors that an event hands to the listener (a goroutine's send on \<open>errorChan\<close> that
  meets the listener in its loop), and the errors received in a run, in the order of their
  receipt.
\<close>

fun sent_by :: "event \<Rightarrow> system \<Rightarrow> goerror list" where
  "sent_by (StepTask i) s =
     (if \<not> crashed s \<and> i < length (tasks s) \<and> \<not> errorChan_closed s \<and> listener s = Listening
      then (case snd (tasks s ! i) of
              AtSend err \<Rightarrow> [err]
            | AtSendRecovered err \<Rightarrow> [err]
            | _ \<Rightarrow> [])
      else [])"
| "sent_by ev s = []"

fun received :: "event list \<Rightarrow> system \<Rightarrow> goerror list" where
  "received [] s = []"
| "received (ev # evs) s = sent_by ev s @ received evs (apply_event ev s)"

text \<open>
  The failures of all tasks, in the order of submission, and whether a task fails (by a
  returned error or by a panic).
\<close>

definition failures :: "(outcome \<times> task_pc) list \<Rightarrow> goerror list" where
  "failures ts = concat (map (\<lambda>t. failure (fst t)) ts)"

fun failed :: "outcome \<times> task_pc \<Rightarrow> bool" where
  "failed (Return None, pc) = False"
| "failed (fnc, pc) = True"

text \<open>
  The values returned by the calls of \<open>TryGo\<close> in a run, in the order of the calls.
\<close>

fun returned_by :: "event \<Rightarrow> system \<Rightarrow> bool list" where
  "returned_by (CallTryGo fnc) s =
     (if crashed s \<or> waiter s \<noteq> None then []
      else (case TryGo fnc s of Returned ok s' \<Rightarrow> [ok] | _ \<Rightarrow> []))"
| "returned_by ev s = []"

fun TryGo_results :: "event list \<Rightarrow> system \<Rightarrow> bool list" where
  "TryGo_results [] s = []"
| "TryGo_results (ev # evs) s = returned_by ev s @ TryGo_results evs (apply_event ev s)"

fun TryGo_call :: "event \<Rightarrow> bool" where
  "TryGo_call (CallTryGo fnc) = True"
| "TryGo_call ev = False"

text \<open>
  A goroutine's step releases a slot when the goroutine stands before \<open><-g.semaphore\<close> in
  \<open>done\<close>, which it reaches only after its function has returned or panicked. A run is a
  sequence of back-to-back calls of \<open>TryGo\<close> before any task completes when it consists of
  calls of \<open>TryGo\<close> and of steps of goroutines none of which releases a slot.
\<close>

fun releasing :: "event \<Rightarrow> system \<Rightarrow> bool" where
  "releasing (StepTask i) s = (i < length (tasks s) \<and> snd (tasks s ! i) = AtRelease)"
| "releasing ev s = False"

fun back_to_back :: "event list \<Rightarrow> system \<Rightarrow> bool" where
  "back_to_back [] s = True"
| "back_to_back (ev # evs) s =
     ((TryGo_call ev \<or> (goroutine_step ev \<and> \<not> releasing ev s))
      \<and> back_to_back evs (apply_event ev s))"

text \<open>
  The states of such a run: the gate of capacity \<open>L\<close> holds \<open>k\<close> tokens, no caller is inside
  \<open>Wait\<close>, nothing is closed or crashed, and no goroutine was spawned by \<open>Go\<close>.
\<close>

definition gate :: "nat \<Rightarrow> nat \<Rightarrow> system \<Rightarrow> bool" where
  "gate L k s =
     (invariant s \<and> \<not> crashed s \<and> waiter s = None \<and> \<not> errorChan_closed s
      \<and> semaphore s = Some (L, k) \<and> k \<le> L
      \<and> list_all (\<lambda>t. snd t \<noteq> AtAcquire) (tasks s))"

section \<open>The invariant holds in every run\<close>

lemmas inv_defs = invariant_def inv_flags_def inv_tasks_def inv_listener_def inv_waiter_def

lemma invariant_New: "invariant New"
  by (simp add: inv_defs New_def reports_def)

lemma invariant_SetLimit: "invariant s \<Longrightarrow> SetLimit n s = Returned u s' \<Longrightarrow> invariant s'"
  by (auto simp: inv_defs SetLimit_def split: if_splits)

lemma invariant_listener_step: "invariant s \<Longrightarrow> listener_step s = Some s' \<Longrightarrow> invariant s'"
  by (auto simp: inv_defs listener_step_def split: listener_pc.splits if_splits)


lemma reports_append [simp]: "reports (ts @ [t]) = reports ts + mset (reported t)"
  by (simp add: reports_def)


lemma invariant_Wait_Continues: "invariant s \<Longrightarrow> Wait_step s = Continues s' \<Longrightarrow> invariant s'"
  by (cases "listener s") (auto simp: inv_defs Wait_step_def split: if_splits option.splits wait_pc.splits)

lemma invariant_Wait_Returned: "invariant s \<Longrightarrow> Wait_step s = Returned r s' \<Longrightarrow> invariant s'"
  by (auto simp: inv_defs Wait_step_def split: if_splits option.splits wait_pc.splits)

lemma invariant_Wait_Panicked: "invariant s \<Longrightarrow> Wait_step s = Panicked r \<Longrightarrow> invariant (s\<lparr>waiter := None\<rparr>)"
  by (auto simp: inv_defs Wait_step_def split: if_splits option.splits wait_pc.splits)



lemma Go_eq: "Go fnc s = Returned u s' \<longleftrightarrow>
   s' = (startListening s)\<lparr> wg := wg s + 1, tasks := tasks s @ [(fnc, AtAcquire)] \<rparr>"
  by (auto simp: Go_def Let_def startListening_def)

lemma start_flags: "inv_flags s \<Longrightarrow> inv_flags ((startListening s)\<lparr> wg := w, tasks := tasks s @ [t] \<rparr>)"
  by (simp add: inv_flags_def startListening_def)

lemma start_tasks: "inv_tasks s \<Longrightarrow> pc = AtAcquire \<or> pc = AtFnc \<Longrightarrow> inv_tasks ((startListening s)\<lparr> wg := wg s + 1, tasks := tasks s @ [(fnc, pc)] \<rparr>)"
  by (auto simp add: inv_tasks_def startListening_def)


lemma start_listener: "inv_listener s \<Longrightarrow> inv_flags s \<Longrightarrow> waiter s = None \<Longrightarrow> pc = AtAcquire \<or> pc = AtFnc \<Longrightarrow> inv_listener ((startListening s)\<lparr> wg := w, tasks := tasks s @ [(fnc, pc)] \<rparr>)"
  by (auto simp add: inv_listener_def inv_flags_def startListening_def reports_def)

lemma start_waiter: "waiter s = None \<Longrightarrow> inv_waiter ((startListening s)\<lparr> wg := w, tasks := tasks s @ [t] \<rparr>)"
  by (simp add: inv_waiter_def startListening_def)

lemma invariant_Go: "invariant s \<Longrightarrow> waiter s = None \<Longrightarrow> Go fnc s = Returned u s' \<Longrightarrow> invariant s'"
  unfolding Go_eq invariant_def
  by (simp add: start_flags start_tasks start_listener start_waiter)


lemma TryGo_cases:
  "TryGo fnc s = Returned u s' \<Longrightarrow>
     (\<not> u \<and> s' = s) \<or>
     (u \<and> (\<exists>sem. s' = (startListening (s\<lparr> semaphore := sem \<rparr>))
                 \<lparr> wg := wg s + 1, tasks := tasks s @ [(fnc, AtFnc)] \<rparr>))"
proof (cases "semaphore s")
  case None
  assume "TryGo fnc s = Returned u s'"
  with None have "u \<and> s' = (startListening (s\<lparr> semaphore := None \<rparr>))
                 \<lparr> wg := wg s + 1, tasks := tasks s @ [(fnc, AtFnc)] \<rparr>"
    by (auto simp: TryGo_def Let_def startListening_def)
  then show ?thesis by blast
next
  case (Some cn)
  assume a: "TryGo fnc s = Returned u s'"
  obtain c n where cn: "cn = (c, n)" by (cases cn)
  show ?thesis
  proof (cases "n < c")
    case True
    with a Some cn have "u \<and> s' = (startListening (s\<lparr> semaphore := Some (c, Suc n) \<rparr>))
                 \<lparr> wg := wg s + 1, tasks := tasks s @ [(fnc, AtFnc)] \<rparr>"
      by (auto simp: TryGo_def Let_def startListening_def)
    then show ?thesis by blast
  next
    case False
    with a Some cn show ?thesis by (simp add: TryGo_def)
  qed
qed

lemma invariant_semaphore [simp]: "invariant (s\<lparr> semaphore := sem \<rparr>) = invariant s"
  by (simp add: inv_defs)

lemma invariant_TryGo:
  assumes "invariant s" "waiter s = None" "TryGo fnc s = Returned u s'"
  shows "invariant s'"
proof -
  from TryGo_cases [OF assms(3)] show ?thesis
  proof
    assume "\<not> u \<and> s' = s" with assms(1) show ?thesis by simp
  next
    assume "u \<and> (\<exists>sem. s' = (startListening (s\<lparr> semaphore := sem \<rparr>))
                 \<lparr> wg := wg s + 1, tasks := tasks s @ [(fnc, AtFnc)] \<rparr>)"
    then obtain sem where s': "s' = (startListening (s\<lparr> semaphore := sem \<rparr>))
                 \<lparr> wg := wg s + 1, tasks := tasks s @ [(fnc, AtFnc)] \<rparr>" by blast
    let ?s = "s\<lparr> semaphore := sem \<rparr>"
    have i: "invariant ?s" and w: "waiter ?s = None" using assms by simp_all
    from i have p: "inv_flags ?s" "inv_tasks ?s" "inv_listener ?s" by (simp_all add: invariant_def)
    have "invariant ((startListening ?s)\<lparr> wg := wg ?s + 1, tasks := tasks ?s @ [(fnc, AtFnc)] \<rparr>)"
      unfolding invariant_def
      using start_flags [OF p(1)] start_tasks [OF p(2)] start_listener [OF p(3) p(1) w] start_waiter [OF w]
      by blast
    with s' show ?thesis by simp
  qed
qed


lemma filter_update_count:
  "i < length ts \<Longrightarrow>
   int (length (filter P (ts[i := y]))) =
     int (length (filter P ts)) - (if P (ts ! i) then 1 else 0) + (if P y then 1 else 0)"
proof (induction ts arbitrary: i)
  case Nil
  then show ?case by simp
next
  case (Cons t ts)
  show ?case
  proof (cases i)
    case 0
    then show ?thesis by simp
  next
    case (Suc j)
    with Cons.prems have "j < length ts" by simp
    from Cons.IH [OF this] Suc show ?thesis by (auto split: if_splits)
  qed
qed

lemma reports_update:
  "i < length ts \<Longrightarrow> reports (ts[i := y]) + mset (reported (ts ! i)) = reports ts + mset (reported y)"
proof (induction ts arbitrary: i)
  case Nil
  then show ?case by simp
next
  case (Cons t ts)
  show ?case
  proof (cases i)
    case 0
    then show ?thesis by (simp add: reports_def)
  next
    case (Suc j)
    with Cons.prems have "j < length ts" by simp
    from Cons.IH [OF this] Suc show ?thesis by (simp add: reports_def ac_simps)
  qed
qed

lemma list_all_update: "list_all P ts \<Longrightarrow> P y \<Longrightarrow> list_all P (ts[i := y])"
  by (induction ts arbitrary: i) (auto split: nat.splits)

lemma task_move_frame:
  "task_move fnc pc s = Some (s1, pc') \<Longrightarrow>
     tasks s1 = tasks s \<and> listener s1 = listener s \<and> waiter s1 = waiter s
     \<and> listeningStarted s1 = listeningStarted s
     \<and> listeningRoutineStarter s1 = listeningRoutineStarter s
     \<and> errorChan_closed s1 = errorChan_closed s
     \<and> finishedChan_closed s1 = finishedChan_closed s
     \<and> (listener s = NotStarted \<longrightarrow> accumulatedErrors s1 = accumulatedErrors s)"
  by (cases pc) (auto simp: send_error_def split: option.splits if_splits outcome.splits)


lemma task_move_wg:
  "task_move fnc pc s = Some (s1, pc') \<Longrightarrow>
     wg s1 = wg s - (if pc' = Exited then 1 else 0) \<and> pc \<noteq> Exited"
  by (cases pc) (auto simp: send_error_def split: option.splits if_splits outcome.splits)

lemma task_move_ok:
  "task_ok (fnc, pc) \<Longrightarrow> task_move fnc pc s = Some (s1, pc') \<Longrightarrow> task_ok (fnc, pc')"
  by (cases pc) (auto simp: send_error_def split: option.splits if_splits outcome.splits)

lemma task_move_reports:
  "task_ok (fnc, pc) \<Longrightarrow> task_move fnc pc s = Some (s1, pc') \<Longrightarrow>
     mset (accumulatedErrors s1) + mset (reported (fnc, pc))
       = mset (accumulatedErrors s) + mset (reported (fnc, pc'))"
  by (cases pc) (auto simp: send_error_def split: option.splits if_splits outcome.splits)

lemma invariant_task_step:
  assumes inv: "invariant s" and step: "task_step i s = Some s'"
  shows "invariant s'"
proof -
  from step have i: "i < length (tasks s)"
    by (simp add: task_step_def split: if_splits)
  obtain fnc pc where t: "tasks s ! i = (fnc, pc)" by (cases "tasks s ! i")
  from step i t obtain s1 pc' where
    mv: "task_move fnc pc s = Some (s1, pc')" and
    s': "s' = s1\<lparr> tasks := (tasks s1)[i := (fnc, pc')] \<rparr>"
    by (auto simp: task_step_def split: option.splits)
  note fr = task_move_frame [OF mv]
  from inv have ok_all: "list_all task_ok (tasks s)" by (simp add: inv_defs)
  with i t have ok: "task_ok (fnc, pc)" by (metis list_all_length)
  have ok': "task_ok (fnc, pc')" by (rule task_move_ok [OF ok mv])
  have flags: "inv_flags s'"
    using inv fr i by (auto simp: s' invariant_def inv_flags_def)
  have "wg s1 = int (length (filter live ((tasks s)[i := (fnc, pc')])))"
    using inv task_move_wg [OF mv] filter_update_count [OF i, of live "(fnc, pc')"] t
    by (auto simp: inv_defs)
  then have tasks: "inv_tasks s'"
    using ok_all ok' fr by (simp add: s' inv_tasks_def list_all_update)
  have "mset (accumulatedErrors s1) = reports ((tasks s)[i := (fnc, pc')])"
    if "mset (accumulatedErrors s) = reports (tasks s)"
  proof -
    have "mset (accumulatedErrors s1) + mset (reported (fnc, pc))
            = reports ((tasks s)[i := (fnc, pc')]) + mset (reported (fnc, pc))"
      using task_move_reports [OF ok mv] reports_update [OF i, of "(fnc, pc')"] t that
      by (simp add: ac_simps)
    then show ?thesis by simp
  qed
  then have listener: "inv_listener s'"
    using inv fr by (auto simp: s' invariant_def inv_listener_def)
  have waiter: "inv_waiter s'"
    using inv fr task_move_wg [OF mv] tasks flags
    by (auto simp: s' invariant_def inv_waiter_def inv_tasks_def split: if_splits)
  from flags tasks listener waiter show ?thesis by (simp add: invariant_def)
qed


lemma SetLimit_not_Continues [simp]: "SetLimit n s \<noteq> Continues x"
  by (simp add: SetLimit_def)

lemma Go_not_Continues [simp]: "Go fnc s \<noteq> Continues x"
  by (simp add: Go_def Let_def)

lemma TryGo_not_Continues [simp]: "TryGo fnc s \<noteq> Continues x"
proof
  assume a: "TryGo fnc s = Continues x"
  show False
  proof (cases "semaphore s")
    case None
    with a show False by (simp add: TryGo_def Let_def)
  next
    case (Some cn)
    with a show False by (cases cn) (simp add: TryGo_def Let_def split: if_splits)
  qed
qed

lemma invariant_apply_event:
  assumes inv: "invariant s"
  shows "invariant (apply_event ev s)"
proof (cases "crashed s")
  case True
  with inv show ?thesis by (cases ev) simp_all
next
  case live: False
  show ?thesis
  proof (cases ev)
    case (CallSetLimit n)
    show ?thesis
    proof (cases "SetLimit n s")
      case (Returned u s')
      with inv have "invariant s'" by (rule invariant_SetLimit)
      with inv Returned CallSetLimit show ?thesis by (simp add: state_of_def)
    qed (use inv CallSetLimit in \<open>simp_all add: state_of_def\<close>)
  next
    case (CallGo fnc)
    show ?thesis
    proof (cases "waiter s = None")
      case True
      show ?thesis
      proof (cases "Go fnc s")
        case (Returned u s')
        with inv True have "invariant s'" by (rule invariant_Go)
        with inv Returned CallGo show ?thesis by (simp add: state_of_def)
      qed (use inv CallGo in \<open>simp_all add: state_of_def\<close>)
    next
      case False
      with inv CallGo show ?thesis by simp
    qed
  next
    case (CallTryGo fnc)
    show ?thesis
    proof (cases "waiter s = None")
      case True
      show ?thesis
      proof (cases "TryGo fnc s")
        case (Returned u s')
        with inv True have "invariant s'" by (rule invariant_TryGo)
        with inv Returned CallTryGo show ?thesis by (simp add: state_of_def)
      qed (use inv CallTryGo in \<open>simp_all add: state_of_def\<close>)
    next
      case False
      with inv CallTryGo show ?thesis by simp
    qed
  next
    case StepWait
    show ?thesis
    proof (cases "Wait_step s")
      case (Returned r s')
      with inv have "invariant s'" by (rule invariant_Wait_Returned)
      with Returned StepWait live show ?thesis by (simp add: state_of_def)
    next
      case (Continues s')
      with inv have "invariant s'" by (rule invariant_Wait_Continues)
      with Continues StepWait live show ?thesis by (simp add: state_of_def)
    next
      case (Panicked m)
      with inv have "invariant (s\<lparr> waiter := None \<rparr>)" by (rule invariant_Wait_Panicked)
      with Panicked StepWait live show ?thesis by simp
    next
      case Blocks
      with inv StepWait live show ?thesis by (simp add: state_of_def)
    qed
  next
    case (StepTask i)
    show ?thesis
    proof (cases "task_step i s")
      case None
      with inv StepTask show ?thesis by simp
    next
      case (Some s')
      with inv have "invariant s'" by (rule invariant_task_step)
      with Some StepTask live show ?thesis by simp
    qed
  next
    case StepListener
    show ?thesis
    proof (cases "listener_step s")
      case None
      with inv StepListener show ?thesis by simp
    next
      case (Some s')
      with inv have "invariant s'" by (rule invariant_listener_step)
      with Some StepListener live show ?thesis by simp
    qed
  qed
qed

lemma invariant_exec: "invariant s \<Longrightarrow> invariant (exec evs s)"
  by (induction evs arbitrary: s) (simp_all add: invariant_apply_event)

lemma invariant_reachable: "invariant (exec evs New)"
  by (rule invariant_exec [OF invariant_New])


section \<open>Facts about runs\<close>

lemma startListening_fields [simp]:
  "waiter (startListening s) = waiter s"
  "errorChan_closed (startListening s) = errorChan_closed s"
  "finishedChan_closed (startListening s) = finishedChan_closed s"
  "tasks (startListening s) = tasks s"
  "wg (startListening s) = wg s"
  "semaphore (startListening s) = semaphore s"
  "crashed (startListening s) = crashed s"
  by (simp_all add: startListening_def)

lemma startListening_started [simp]:
  "listeningStarted (startListening s) = (listeningStarted s \<or> \<not> listeningRoutineStarter s)"
  by (simp add: startListening_def)

lemma tasks_task_step: "task_step i s = Some s' \<Longrightarrow> length (tasks s') = length (tasks s)"
  by (auto simp: task_step_def split: if_splits option.splits dest: task_move_frame)

lemma tasks_listener_step: "listener_step s = Some s' \<Longrightarrow> tasks s' = tasks s"
  by (auto simp: listener_step_def split: listener_pc.splits if_splits)

lemma tasks_Wait_step: "tasks (state_of (Wait_step s) s) = tasks s"
  by (auto simp: Wait_step_def state_of_def split: option.splits wait_pc.splits)

lemma tasks_SetLimit: "tasks (state_of (SetLimit n s) s) = tasks s"
  by (simp add: SetLimit_def state_of_def)

lemma tasks_Go: "tasks (state_of (Go fnc s) s) = tasks s @ [(fnc, AtAcquire)]"
  by (simp add: Go_def state_of_def Let_def startListening_def)

lemma tasks_TryGo:
  "length (tasks (state_of (TryGo fnc s) s)) =
     length (tasks s) + (if (case TryGo fnc s of Returned ok s' \<Rightarrow> ok | _ \<Rightarrow> False) then 1 else 0)"
proof (cases "TryGo fnc s")
  case (Returned ok s')
  from TryGo_cases [OF this] Returned show ?thesis
    by (auto simp: state_of_def startListening_def)
qed (simp_all add: state_of_def)

lemma tasks_apply_event:
  "length (tasks (apply_event ev s)) = length (tasks s) + (if submitted ev s then 1 else 0)"
proof (cases ev)
  case (CallSetLimit n)
  then show ?thesis by (simp add: tasks_SetLimit)
next
  case (CallGo fnc)
  then show ?thesis by (simp add: tasks_Go)
next
  case (CallTryGo fnc)
  then show ?thesis using tasks_TryGo [of fnc s] by simp
next
  case StepWait
  then show ?thesis using tasks_Wait_step [of s]
    by (cases "Wait_step s") (simp_all add: state_of_def)
next
  case (StepTask i)
  then show ?thesis by (cases "task_step i s") (simp_all add: tasks_task_step)
next
  case StepListener
  then show ?thesis by (cases "listener_step s") (simp_all add: tasks_listener_step)
qed

lemma tasks_exec: "length (tasks (exec evs s)) = length (tasks s) + submissions evs s"
  by (induction evs arbitrary: s) (simp_all add: tasks_apply_event)

lemma tasks_reachable: "length (tasks (exec evs New)) = submissions evs New"
  by (simp add: tasks_exec New_def)

lemma never_submitted:
  assumes "submissions evs New = 0"
  shows "\<not> listeningStarted (exec evs New) \<and> waiter (exec evs New) = None
         \<and> listener (exec evs New) = NotStarted"
proof -
  have "tasks (exec evs New) = []" using tasks_reachable [of evs] assms by simp
  with invariant_reachable [of evs] show ?thesis by (auto simp: inv_defs)
qed

lemma started_iff_submitted: "listeningStarted (exec evs New) \<longleftrightarrow> 0 < submissions evs New"
proof -
  have "inv_flags (exec evs New)" using invariant_reachable [of evs] by (simp add: invariant_def)
  then have "listeningStarted (exec evs New) = (tasks (exec evs New) \<noteq> [])"
    by (simp add: inv_flags_def)
  also have "\<dots> = (0 < length (tasks (exec evs New)))" by simp
  finally show ?thesis by (simp only: tasks_reachable)
qed

lemma map_filter_Some: "List.map_filter (\<lambda>e. e) (map Some xs) = xs"
  by (induction xs) (simp_all add: List.map_filter_simps)

lemma Wait_result_eq: "Wait_result errs = (if errs = [] then None else Some (JoinError errs))"
  by (simp add: Wait_result_def errors_Join_def map_filter_Some)

lemma Wait_returns_cases:
  assumes inv: "invariant s" and ret: "Wait_step s = Returned r s'"
  shows "(waiter s = None \<and> \<not> listeningStarted s \<and> listener s = NotStarted
            \<and> accumulatedErrors s = [] \<and> r = None \<and> s' = s)
         \<or> (waiter s = Some AtRecv \<and> listener s = Sending
            \<and> r = Wait_result (accumulatedErrors s)
            \<and> s' = s\<lparr> listener := Closing, waiter := None \<rparr>)"
proof (cases "waiter s")
  case None
  with ret have "\<not> listeningStarted s \<and> r = None \<and> s' = s"
    by (auto simp: Wait_step_def split: if_splits)
  moreover from this inv have "listener s = NotStarted \<and> accumulatedErrors s = []"
    by (simp add: inv_defs)
  ultimately show ?thesis using None by simp
next
  case (Some pc)
  show ?thesis
  proof (cases pc)
    case AtRecv
    with Some inv have l: "listener s = Listening \<or> listener s = Sending"
      and f: "finishedChan_closed s = (listener s = Finished)"
      by (simp_all add: inv_defs)
    from l f have "listener s = Sending \<or> (listener s \<noteq> Sending \<and> \<not> finishedChan_closed s)"
      by auto
    with ret Some AtRecv show ?thesis
      by (auto simp: Wait_step_def split: if_splits)
  qed (use ret Some in \<open>auto simp: Wait_step_def split: if_splits\<close>)
qed

lemma drained_task_step: "drained s \<Longrightarrow> task_step i s = None"
  by (auto simp: task_step_def drained_def list_all_length split: option.splits)

lemma drained_listener_step:
  "drained s \<Longrightarrow> listener_step s = Some s' \<Longrightarrow> drained s' \<and> waiter s' = waiter s"
  by (auto simp: listener_step_def drained_def split: listener_pc.splits if_splits)

lemma drained_goroutine_step:
  "drained s \<Longrightarrow> goroutine_step ev \<Longrightarrow>
     drained (apply_event ev s) \<and> waiter (apply_event ev s) = waiter s"
proof (cases ev)
  case (StepTask i)
  assume "drained s"
  with StepTask show ?thesis by (simp add: drained_task_step)
next
  case StepListener
  assume "drained s"
  with StepListener drained_listener_step [of s] show ?thesis
    by (cases "listener_step s") simp_all
qed simp_all

lemma drained_exec:
  "drained s \<Longrightarrow> list_all goroutine_step gs \<Longrightarrow>
     drained (exec gs s) \<and> waiter (exec gs s) = waiter s"
proof (induction gs arbitrary: s)
  case Nil
  then show ?case by simp
next
  case (Cons g gs)
  from Cons.prems have d: "drained (apply_event g s)" and w: "waiter (apply_event g s) = waiter s"
    using drained_goroutine_step [of s g] by simp_all
  from Cons.IH [OF d] Cons.prems(2) w show ?case by simp
qed

lemma closed_for_good_apply_event: "closed_for_good s \<Longrightarrow> closed_for_good (apply_event ev s)"
proof (cases ev)
  case (CallSetLimit n)
  assume "closed_for_good s"
  with CallSetLimit show ?thesis by (simp add: closed_for_good_def SetLimit_def state_of_def)
next
  case (CallGo fnc)
  assume "closed_for_good s"
  with CallGo show ?thesis
    by (simp add: closed_for_good_def Go_def Let_def state_of_def)
next
  case (CallTryGo fnc)
  assume c: "closed_for_good s"
  show ?thesis
  proof (cases "TryGo fnc s")
    case (Returned ok s')
    from TryGo_cases [OF this] c have "closed_for_good s'"
      by (auto simp: closed_for_good_def)
    with c Returned CallTryGo show ?thesis by (simp add: state_of_def)
  qed (use c CallTryGo in \<open>simp_all add: state_of_def\<close>)
next
  case StepWait
  assume "closed_for_good s"
  with StepWait show ?thesis
    by (auto simp: closed_for_good_def Wait_step_def state_of_def
        split: option.splits wait_pc.splits)
next
  case (StepTask i)
  assume c: "closed_for_good s"
  show ?thesis
  proof (cases "task_step i s")
    case None
    with c StepTask show ?thesis by simp
  next
    case (Some s')
    then have "closed_for_good s'" using c
      by (auto simp: task_step_def closed_for_good_def split: if_splits option.splits
          dest: task_move_frame)
    with c Some StepTask show ?thesis by simp
  qed
next
  case StepListener
  assume c: "closed_for_good s"
  show ?thesis
  proof (cases "listener_step s")
    case None
    with c StepListener show ?thesis by simp
  next
    case (Some s')
    then have "closed_for_good s'" using c
      by (auto simp: listener_step_def closed_for_good_def split: listener_pc.splits if_splits)
    with c Some StepListener show ?thesis by simp
  qed
qed

lemma closed_for_good_exec: "closed_for_good s \<Longrightarrow> closed_for_good (exec evs s)"
  by (induction evs arbitrary: s) (simp_all add: closed_for_good_apply_event)

lemma closed_for_good_Wait:
  "closed_for_good s \<Longrightarrow>
     Wait_step s \<noteq> Returned r s'
     \<and> (waiter s = Some AtClose \<longrightarrow> Wait_step s = Panicked ''close of closed channel'')"
  by (auto simp: closed_for_good_def Wait_step_def split: option.splits wait_pc.splits)

lemma after_first_Wait:
  assumes ret: "Wait_step (exec evs New) = Returned r s1" and sub: "0 < submissions evs New"
  shows "drained s1 \<and> waiter s1 = None \<and> closed_for_good s1"
proof -
  let ?s = "exec evs New"
  have inv: "invariant ?s" by (rule invariant_reachable)
  have started: "listeningStarted ?s" using sub by (simp add: started_iff_submitted)
  with Wait_returns_cases [OF inv ret]
  have w: "waiter ?s = Some AtRecv" and s1: "s1 = ?s\<lparr> listener := Closing, waiter := None \<rparr>"
    by auto
  from inv have iw: "inv_waiter ?s" and il: "inv_listener ?s" and it: "inv_tasks ?s"
    by (simp_all add: invariant_def)
  from iw w have "wg ?s = 0" by (simp add: inv_waiter_def)
  from il w have "errorChan_closed ?s" by (simp add: inv_listener_def)
  from it have "wg ?s = int (length (filter live (tasks ?s)))"
    by (simp add: inv_tasks_def)
  with \<open>wg ?s = 0\<close> have "filter live (tasks ?s) = []" by simp
  then have "list_all (\<lambda>t. snd t = Exited) (tasks ?s)"
    by (auto simp: filter_empty_conv list_all_iff)
  with \<open>wg ?s = 0\<close> \<open>errorChan_closed ?s\<close> started s1 show ?thesis
    by (simp add: drained_def closed_for_good_def)
qed

lemma WrapErrors_not_element: "WrapErrors m [a, val] \<noteq> val"
proof
  assume "WrapErrors m [a, val] = val"
  then have "size (WrapErrors m [a, val]) = size val" by simp
  then show False by simp
qed

lemma recovered_Is_marker:
  "errors_Is eq (Some (recovered msg stack)) (Some ErrPanicRecovered) = Some True"
  by (cases msg)
    (simp_all add: errors_Is_def recovered_def Errorf_w_w_s_def Errorf_w_v_s_def
      ErrPanicRecovered_def equals_target_def)

lemma recovered_Is_payload:
  assumes c: "comparable val" and r: "go_eq eq val val = Some True"
  shows "errors_Is eq (Some (recovered (ErrorValue val) stack)) (Some val) = Some True"
proof -
  let ?w = "WrapErrors (Error ErrPanicRecovered @ '': '' @ Error val @ newline @ stack)
              [ErrPanicRecovered, val]"
  have w: "go_eq eq ?w val = Some False"
    using WrapErrors_not_element [of _ ErrPanicRecovered val] by (cases val) simp_all
  have m: "go_eq eq ErrPanicRecovered val = Some (ErrPanicRecovered = val)"
    by (cases val) (simp_all add: ErrPanicRecovered_def)
  have "errors_is eq ErrPanicRecovered val True = Some (ErrPanicRecovered = val)"
    using m by (simp add: ErrPanicRecovered_def equals_target_def)
  moreover have "errors_is eq val val True = Some True"
    using r by (cases val) (simp_all add: equals_target_def)
  ultimately have "errors_is_each eq [ErrPanicRecovered, val] val True = Some True"
    by (cases "ErrPanicRecovered = val") simp_all
  with w c show ?thesis
    by (simp add: errors_Is_def recovered_def Errorf_w_w_s_def equals_target_def)
qed

lemma reported_in_reports: "i < length ts \<Longrightarrow> set (reported (ts ! i)) \<subseteq> set_mset (reports ts)"
proof (induction ts arbitrary: i)
  case Nil
  then show ?case by simp
next
  case (Cons t ts)
  show ?case
  proof (cases i)
    case 0
    then show ?thesis by (auto simp: reports_def)
  next
    case (Suc j)
    with Cons.prems have "j < length ts" by simp
    from Cons.IH [OF this] Suc show ?thesis by (auto simp: reports_def)
  qed
qed

lemma reported_in_accumulatedErrors:
  assumes inv: "invariant s" and i: "i < length (tasks s)" and t: "tasks s ! i = (fnc, pc)"
    and pc: "pc = AtRelease \<or> pc = AtWgDone \<or> pc = Exited"
    and l: "listener s = Listening \<or> listener s = Sending"
  shows "set (failure fnc) \<subseteq> set (accumulatedErrors s)"
proof -
  from inv l have "mset (accumulatedErrors s) = reports (tasks s)"
    by (auto simp: invariant_def inv_listener_def)
  then have "set (accumulatedErrors s) = set_mset (reports (tasks s))"
    by (metis set_mset_mset)
  moreover from pc t have "reported (tasks s ! i) = failure fnc" by auto
  ultimately show ?thesis using reported_in_reports [OF i] by simp
qed

lemma invariant_after_first_Wait:
  "Wait_step (exec evs New) = Returned r s1 \<Longrightarrow> invariant s1"
  using invariant_Wait_Returned [OF invariant_reachable] by blast

lemma idle_drained:
  assumes inv: "invariant s" and c: "closed_for_good s" and wg: "wg s = 0"
  shows "drained s"
proof -
  from inv have "wg s = int (length (filter live (tasks s)))"
    by (simp add: invariant_def inv_tasks_def)
  with wg have "filter live (tasks s) = []" by simp
  then have "list_all (\<lambda>t. snd t = Exited) (tasks s)"
    by (auto simp: filter_empty_conv list_all_iff)
  with c wg show ?thesis by (simp add: drained_def closed_for_good_def)
qed

lemma drained_Wait_panics:
  assumes d: "drained s" and w: "waiter s = None"
    and g1: "list_all goroutine_step gs1" and g2: "list_all goroutine_step gs2"
    and g3: "list_all goroutine_step gs3"
  shows "\<exists>a b. Wait_step (exec gs1 s) = Continues a
           \<and> Wait_step (exec gs2 a) = Continues b
           \<and> Wait_step (exec gs3 b) = Panicked ''close of closed channel''"
proof -
  let ?t1 = "exec gs1 s"
  from drained_exec [OF d g1] w
  have dt1: "drained ?t1" and wt1: "waiter ?t1 = None" by simp_all
  let ?a = "?t1\<lparr> waiter := Some AtWgWait \<rparr>"
  have sa: "Wait_step ?t1 = Continues ?a"
    using dt1 wt1 by (simp add: Wait_step_def drained_def)
  have da: "drained ?a" using dt1 by (simp add: drained_def)
  let ?t2 = "exec gs2 ?a"
  from drained_exec [OF da g2]
  have dt2: "drained ?t2" and wt2: "waiter ?t2 = Some AtWgWait" by simp_all
  let ?b = "?t2\<lparr> waiter := Some AtClose \<rparr>"
  have sb: "Wait_step ?t2 = Continues ?b"
    using dt2 wt2 by (simp add: Wait_step_def drained_def)
  have db: "drained ?b" using dt2 by (simp add: drained_def)
  let ?t3 = "exec gs3 ?b"
  from drained_exec [OF db g3]
  have dt3: "drained ?t3" and wt3: "waiter ?t3 = Some AtClose" by simp_all
  have sc: "Wait_step ?t3 = Panicked ''close of closed channel''"
    using dt3 wt3 by (simp add: Wait_step_def drained_def)
  from sa sb sc show ?thesis by blast
qed

lemma closed_for_good_Wait_step:
  assumes c: "closed_for_good s"
  shows "Wait_step s =
           (case waiter s of
              None \<Rightarrow> Continues (s\<lparr> waiter := Some AtWgWait \<rparr>)
            | Some AtWgWait \<Rightarrow>
                if wg s = 0 then Continues (s\<lparr> waiter := Some AtClose \<rparr>) else Blocks
            | Some AtClose \<Rightarrow> Panicked ''close of closed channel''
            | Some AtRecv \<Rightarrow> Blocks)"
  using c by (auto simp: closed_for_good_def Wait_step_def split: option.splits wait_pc.splits)

lemma length_failures: "length (failures ts) = length (filter failed ts)"
proof (induction ts)
  case Nil
  then show ?case by (simp add: failures_def)
next
  case (Cons t ts)
  obtain fnc pc where t: "t = (fnc, pc)" by (cases t)
  from Cons show ?case
    by (cases fnc rule: failure.cases) (simp_all add: failures_def t)
qed

lemma reports_all_exited:
  "list_all (\<lambda>t. snd t = Exited) ts \<Longrightarrow> reports ts = mset (failures ts)"
  by (induction ts) (auto simp: reports_def failures_def)

lemma acc_startListening:
  "inv_flags s \<Longrightarrow> accumulatedErrors (startListening s) = accumulatedErrors s"
  by (auto simp: startListening_def inv_flags_def)

lemma acc_task_move:
  "task_move fnc pc s = Some (s1, pc') \<Longrightarrow>
     accumulatedErrors s1 = accumulatedErrors s @
       (if \<not> errorChan_closed s \<and> listener s = Listening
        then (case pc of AtSend err \<Rightarrow> [err] | AtSendRecovered err \<Rightarrow> [err] | _ \<Rightarrow> [])
        else [])"
  by (cases pc) (auto simp: send_error_def split: option.splits if_splits outcome.splits)

lemma acc_task_step:
  "task_step i s = Some s' \<Longrightarrow> \<not> crashed s \<Longrightarrow>
     accumulatedErrors s' = accumulatedErrors s @ sent_by (StepTask i) s"
  by (auto simp: task_step_def split: if_splits option.splits dest!: acc_task_move)

lemma sent_by_blocked: "task_step i s = None \<Longrightarrow> sent_by (StepTask i) s = []"
  by (auto simp: task_step_def send_error_def split: if_splits option.splits task_pc.splits)

lemma acc_apply_event:
  assumes inv: "invariant s"
  shows "accumulatedErrors (apply_event ev s) = accumulatedErrors s @ sent_by ev s"
proof (cases ev)
  case (CallSetLimit n)
  then show ?thesis by (simp add: SetLimit_def state_of_def)
next
  case (CallGo fnc)
  from inv have "inv_flags s" by (simp add: invariant_def)
  with CallGo show ?thesis by (simp add: Go_def Let_def state_of_def acc_startListening)
next
  case (CallTryGo fnc)
  from inv have f: "inv_flags (s\<lparr> semaphore := sem \<rparr>)" for sem
    by (simp add: invariant_def inv_flags_def)
  show ?thesis
  proof (cases "TryGo fnc s")
    case (Returned ok s')
    from TryGo_cases [OF this] acc_startListening [OF f] have "accumulatedErrors s' = accumulatedErrors s"
      by auto
    with Returned CallTryGo show ?thesis by (simp add: state_of_def)
  qed (use CallTryGo in \<open>simp_all add: state_of_def\<close>)
next
  case StepWait
  then show ?thesis
    by (auto simp: Wait_step_def state_of_def split: option.splits wait_pc.splits)
next
  case (StepTask i)
  show ?thesis
  proof (cases "crashed s")
    case True
    with StepTask show ?thesis by simp
  next
    case False
    with StepTask show ?thesis
      by (cases "task_step i s") (simp_all add: acc_task_step sent_by_blocked del: sent_by.simps)
  qed
next
  case StepListener
  then show ?thesis
    by (auto simp: listener_step_def split: listener_pc.splits option.splits)
qed

lemma acc_exec:
  "invariant s \<Longrightarrow> accumulatedErrors (exec evs s) = accumulatedErrors s @ received evs s"
proof (induction evs arbitrary: s)
  case Nil
  then show ?case by simp
next
  case (Cons ev evs)
  from Cons.IH [OF invariant_apply_event [OF Cons.prems]] acc_apply_event [OF Cons.prems]
  show ?case by simp
qed

lemma go_eq_no_panic: "\<forall>a b. eq a b \<noteq> None \<Longrightarrow> go_eq eq x y \<noteq> None"
  by (cases "(eq, x, y)" rule: go_eq.cases) auto

lemma equals_target_no_panic:
  "\<forall>a b. eq a b \<noteq> None \<Longrightarrow> equals_target eq x y tc \<noteq> None"
  using go_eq_no_panic [of eq x y] by (cases tc) (simp_all add: equals_target_def)

lemma or_else_no_panic: "x \<noteq> None \<Longrightarrow> y \<noteq> None \<Longrightarrow> or_else x y \<noteq> None"
  by (cases "(x, y)" rule: or_else.cases) auto

lemma errors_is_no_panic:
  "\<forall>a b. eq a b \<noteq> None \<Longrightarrow> errors_is eq x t tc \<noteq> None"
  "\<forall>a b. eq a b \<noteq> None \<Longrightarrow> errors_is_each eq xs t tc \<noteq> None"
proof (induction eq x t tc and eq xs t tc rule: errors_is_errors_is_each.induct)
  case (1 eq a m target targetComparable)
  then show ?case by (simp add: equals_target_no_panic)
next
  case (2 eq i m c target targetComparable)
  then show ?case by (simp add: equals_target_no_panic)
next
  case (3 eq m e target targetComparable)
  then show ?case by (simp add: equals_target_no_panic or_else_no_panic)
next
  case (4 eq m es target targetComparable)
  then show ?case by (simp add: equals_target_no_panic or_else_no_panic)
next
  case (5 eq es target targetComparable)
  then show ?case by (simp add: equals_target_no_panic or_else_no_panic)
next
  case (6 eq target targetComparable)
  then show ?case by simp
next
  case (7 eq e es target targetComparable)
  then show ?case by (simp add: or_else_no_panic)
qed

lemma errors_is_self: "go_eq eq e e = Some True \<Longrightarrow> errors_is eq e e True = Some True"
  by (cases e) (simp_all add: equals_target_def)

lemma errors_is_each_member:
  assumes np: "\<forall>a b. eq a b \<noteq> None" and self: "go_eq eq e e = Some True"
  shows "e \<in> set es \<Longrightarrow> errors_is_each eq es e True = Some True"
proof (induction es)
  case Nil
  then show ?case by simp
next
  case (Cons x es)
  from errors_is_no_panic(1) [OF np, of x e True] obtain b
    where b: "errors_is eq x e True = Some b" by auto
  show ?case
  proof (cases b)
    case True
    with b show ?thesis by simp
  next
    case False
    with b errors_is_self [OF self] have "x \<noteq> e" by auto
    with Cons have "errors_is_each eq es e True = Some True" by simp
    with b False show ?thesis by simp
  qed
qed

lemma errors_Is_member:
  assumes "e \<in> set errs" and "comparable e" and "go_eq eq e e = Some True"
    and "\<forall>a b. eq a b \<noteq> None"
  shows "errors_Is eq (Some (JoinError errs)) (Some e) = Some True"
proof -
  have each: "errors_is_each eq errs e True = Some True"
    by (rule errors_is_each_member [OF assms(4) assms(3) assms(1)])
  have g: "go_eq eq (JoinError errs) e = Some (JoinError errs = e)"
    by (cases e) simp_all
  show ?thesis
  proof (cases "JoinError errs = e")
    case True
    have "errors_is eq e e True = Some True" by (rule errors_is_self [OF assms(3)])
    with True assms(2) show ?thesis by (simp add: errors_Is_def)
  next
    case False
    with each g assms(2) show ?thesis by (simp add: errors_Is_def equals_target_def)
  qed
qed

lemma gate_TryGo_free:
  assumes g: "gate L k s" and free: "k < L"
  shows "\<exists>s'. TryGo fnc s = Returned True s' \<and> gate L (Suc k) s'"
proof -
  let ?s' = "(startListening (s\<lparr> semaphore := Some (L, Suc k) \<rparr>))
               \<lparr> wg := wg s + 1, tasks := tasks s @ [(fnc, AtFnc)] \<rparr>"
  from g free have t: "TryGo fnc s = Returned True ?s'"
    by (simp add: gate_def TryGo_def Let_def)
  from g have "invariant s" "waiter s = None" by (simp_all add: gate_def)
  from invariant_TryGo [OF this t] have "invariant ?s'" .
  with g free have "gate L (Suc k) ?s'" by (simp add: gate_def)
  with t show ?thesis by blast
qed

lemma gate_TryGo_full: "gate L L s \<Longrightarrow> TryGo fnc s = Returned False s"
  by (simp add: gate_def TryGo_def)

lemma gate_listener_step: "gate L k s \<Longrightarrow> listener_step s = None"
  by (auto simp: gate_def inv_defs listener_step_def split: listener_pc.splits)

lemma gate_task_move:
  assumes mv: "task_move fnc pc s = Some (s1, pc')"
    and pc: "pc \<noteq> AtAcquire" "pc \<noteq> AtRelease"
    and ok: "\<not> errorChan_closed s" "1 \<le> wg s"
  shows "semaphore s1 = semaphore s \<and> crashed s1 = crashed s \<and> pc' \<noteq> AtAcquire"
  using mv pc ok
  by (cases pc) (auto simp: send_error_def split: option.splits if_splits outcome.splits)

lemma gate_task_step:
  assumes g: "gate L k s" and step: "task_step i s = Some s'"
    and nr: "\<not> releasing (StepTask i) s"
  shows "gate L k s'"
proof -
  from step have i: "i < length (tasks s)" by (simp add: task_step_def split: if_splits)
  obtain fnc pc where t: "tasks s ! i = (fnc, pc)" by (cases "tasks s ! i")
  from step i t obtain s1 pc' where
    mv: "task_move fnc pc s = Some (s1, pc')" and
    s': "s' = s1\<lparr> tasks := (tasks s1)[i := (fnc, pc')] \<rparr>"
    by (auto simp: task_step_def split: option.splits)
  from g have inv: "invariant s" by (simp add: gate_def)
  from g i t have pc1: "pc \<noteq> AtAcquire" by (auto simp: gate_def list_all_length)
  from nr i t have pc2: "pc \<noteq> AtRelease" by simp
  from task_move_wg [OF mv] have "pc \<noteq> Exited" by simp
  with i t have "live (tasks s ! i)" by simp
  with i have "filter live (tasks s) \<noteq> []" by (auto simp: filter_empty_conv)
  moreover from inv have "wg s = int (length (filter live (tasks s)))"
    by (simp add: invariant_def inv_tasks_def)
  ultimately have wg: "1 \<le> wg s" by (cases "filter live (tasks s)") simp_all
  from g have oc: "\<not> errorChan_closed s" by (simp add: gate_def)
  note fr = task_move_frame [OF mv]
  note gm = gate_task_move [OF mv pc1 pc2 oc wg]
  have "invariant s'" by (rule invariant_task_step [OF inv step])
  moreover have "list_all (\<lambda>t. snd t \<noteq> AtAcquire) (tasks s')"
    using g gm fr by (simp add: s' gate_def list_all_update)
  ultimately show ?thesis using g gm fr by (simp add: s' gate_def)
qed

lemma gate_goroutine_step:
  assumes g: "gate L k s" and ev: "goroutine_step ev" and nr: "\<not> releasing ev s"
  shows "gate L k (apply_event ev s) \<and> returned_by ev s = []"
proof (cases ev)
  case (StepTask i)
  show ?thesis
  proof (cases "task_step i s")
    case None
    with g StepTask show ?thesis by simp
  next
    case (Some s')
    from gate_task_step [OF g Some] nr StepTask have "gate L k s'" by simp
    with g Some StepTask show ?thesis by (simp add: gate_def)
  qed
next
  case StepListener
  with g gate_listener_step [OF g] show ?thesis by simp
qed (use ev in simp_all)

lemma gate_results:
  "gate L k s \<Longrightarrow> back_to_back evs s \<Longrightarrow>
     TryGo_results evs s =
       replicate (min (L - k) (length (filter TryGo_call evs))) True
       @ replicate (length (filter TryGo_call evs) - (L - k)) False"
proof (induction evs arbitrary: s k)
  case Nil
  then show ?case by simp
next
  case (Cons ev evs)
  from Cons.prems have b: "back_to_back evs (apply_event ev s)" by simp
  show ?case
  proof (cases "TryGo_call ev")
    case True
    then obtain fnc where ev: "ev = CallTryGo fnc" by (cases ev) simp_all
    from Cons.prems(1) have live: "\<not> crashed s" "waiter s = None" "k \<le> L"
      by (simp_all add: gate_def)
    show ?thesis
    proof (cases "k < L")
      case free: True
      from gate_TryGo_free [OF Cons.prems(1) free, of fnc] obtain s' where
        t: "TryGo fnc s = Returned True s'" and g': "gate L (Suc k) s'" by blast
      from t live ev have a: "apply_event ev s = s'" by (simp add: state_of_def)
      from Cons.IH [OF g'] b a have
        "TryGo_results evs s' =
           replicate (min (L - Suc k) (length (filter TryGo_call evs))) True
           @ replicate (length (filter TryGo_call evs) - (L - Suc k)) False" by simp
      moreover from free have "L - k = Suc (L - Suc k)" by simp
      ultimately show ?thesis using t live ev a by simp
    next
      case False
      with live have kL: "k = L" by simp
      with Cons.prems(1) have t: "TryGo fnc s = Returned False s" by (simp add: gate_TryGo_full)
      from t live ev have a: "apply_event ev s = s" by (simp add: state_of_def)
      from Cons.IH [OF Cons.prems(1)] b a have
        "TryGo_results evs s = replicate (length (filter TryGo_call evs)) False"
        using kL by simp
      then show ?thesis using t live ev a kL
        by (simp add: replicate_append_same)
    qed
  next
    case False
    with Cons.prems(2) have gs: "goroutine_step ev" and nr: "\<not> releasing ev s" by simp_all
    from gate_goroutine_step [OF Cons.prems(1) gs nr]
    have g': "gate L k (apply_event ev s)" and r: "returned_by ev s = []" by simp_all
    from Cons.IH [OF g' b] r False show ?thesis by simp
  qed
qed

lemma gate_SetLimit: "0 < L \<Longrightarrow> gate L 0 (state_of (SetLimit (int L) New) New)"
  by (simp add: gate_def SetLimit_def state_of_def New_def inv_defs reports_def)

section \<open>Example runs\<close>

text \<open>
  One task is submitted with \<open>Go\<close> and returns an error; its goroutine runs to its end, the
  caller goes through \<open>Wait\<close> up to the receive, and the listener leaves its loop.
\<close>

lemma failing_run:
  "exec [CallGo (Return (Some (Leaf 1 ''boom'' True))),
         StepTask 0, StepTask 0, StepTask 0, StepTask 0, StepTask 0,
         StepWait, StepWait, StepWait, StepListener] New
   = \<lparr> wg = 0, semaphore = None, finishedChan_closed = False, errorChan_closed = True,
       listeningStarted = True, listeningRoutineStarter = True, listener = Sending,
       accumulatedErrors = [Leaf 1 ''boom'' True],
       tasks = [(Return (Some (Leaf 1 ''boom'' True)), Exited)],
       waiter = Some AtRecv, crashed = False \<rparr>"
  by (simp add: New_def Go_def startListening_def state_of_def task_step_def send_error_def
      Wait_step_def listener_step_def)

lemma failing_run_submissions:
  "submissions [CallGo (Return (Some (Leaf 1 ''boom'' True))),
         StepTask 0, StepTask 0, StepTask 0, StepTask 0, StepTask 0,
         StepWait, StepWait, StepWait, StepListener] New = 1"
  by (simp add: New_def Go_def startListening_def state_of_def task_step_def send_error_def
      Wait_step_def listener_step_def)

text \<open>The same run for any returned error \<open>e\<close>.\<close>

lemma one_failure_run:
  "exec [CallGo (Return (Some e)),
         StepTask 0, StepTask 0, StepTask 0, StepTask 0, StepTask 0,
         StepWait, StepWait, StepWait, StepListener] New
   = \<lparr> wg = 0, semaphore = None, finishedChan_closed = False, errorChan_closed = True,
       listeningStarted = True, listeningRoutineStarter = True, listener = Sending,
       accumulatedErrors = [e], tasks = [(Return (Some e), Exited)],
       waiter = Some AtRecv, crashed = False \<rparr>"
  by (simp add: New_def Go_def startListening_def state_of_def task_step_def send_error_def
      Wait_step_def listener_step_def)

text \<open>
  Two tasks: the first, submitted with \<open>Go\<close>, returns an error; the second, submitted with
  \<open>TryGo\<close>, panics with a string, and its failure reaches the listener first.
\<close>

lemma two_failures_run:
  "exec [CallGo (Return (Some (Leaf 1 ''boom'' True))),
         CallTryGo (Panic (OtherValue ''kaboom'') ''goroutine 7 [running]''),
         StepTask 1, StepTask 1, StepTask 0, StepTask 0, StepTask 0,
         StepTask 0, StepTask 1, StepTask 1, StepTask 0,
         StepWait, StepWait, StepWait, StepListener] New
   = \<lparr> wg = 0, semaphore = None, finishedChan_closed = False, errorChan_closed = True,
       listeningStarted = True, listeningRoutineStarter = True, listener = Sending,
       accumulatedErrors = [recovered (OtherValue ''kaboom'') ''goroutine 7 [running]'',
                            Leaf 1 ''boom'' True],
       tasks = [(Return (Some (Leaf 1 ''boom'' True)), Exited),
                (Panic (OtherValue ''kaboom'') ''goroutine 7 [running]'', Exited)],
       waiter = Some AtRecv, crashed = False \<rparr>"
  by (simp add: New_def Go_def TryGo_def startListening_def state_of_def task_step_def
      send_error_def Wait_step_def listener_step_def)

section \<open>The result of Wait\<close>

text \<open>
  C1. In every run, when \<open>Wait\<close> returns, it returns \<open>nil\<close> exactly when the listener's
  \<open>accumulatedErrors\<close> is empty; otherwise it returns the aggregate \<open>errors.Join\<close> of that
  list, which is not empty. An aggregate of zero elements is never returned.
\<close>

theorem Wait_nil_iff_no_errors:
  assumes "Wait_step (exec evs New) = Returned r s'"
  shows "(r = None \<longleftrightarrow> accumulatedErrors (exec evs New) = [])
         \<and> (\<forall>e. r = Some e \<longrightarrow>
               e = JoinError (accumulatedErrors (exec evs New))
               \<and> accumulatedErrors (exec evs New) \<noteq> [])"
  using Wait_returns_cases [OF invariant_reachable assms]
  by (auto simp: Wait_result_eq split: if_splits)

theorem Wait_nil_iff_no_errors_witness:
  "Wait_step (exec [CallGo (Return (Some (Leaf 1 ''boom'' True))),
         StepTask 0, StepTask 0, StepTask 0, StepTask 0, StepTask 0,
         StepWait, StepWait, StepWait, StepListener] New)
     = Returned (Some (JoinError [Leaf 1 ''boom'' True]))
         ((exec [CallGo (Return (Some (Leaf 1 ''boom'' True))),
         StepTask 0, StepTask 0, StepTask 0, StepTask 0, StepTask 0,
         StepWait, StepWait, StepWait, StepListener] New)\<lparr> listener := Closing, waiter := None \<rparr>)
   \<and> accumulatedErrors (exec [CallGo (Return (Some (Leaf 1 ''boom'' True))),
         StepTask 0, StepTask 0, StepTask 0, StepTask 0, StepTask 0,
         StepWait, StepWait, StepWait, StepListener] New) = [Leaf 1 ''boom'' True]"
proof -
  let ?s = "exec [CallGo (Return (Some (Leaf 1 ''boom'' True))),
         StepTask 0, StepTask 0, StepTask 0, StepTask 0, StepTask 0,
         StepWait, StepWait, StepWait, StepListener] New"
  have r: "Wait_step ?s = Returned (Some (JoinError [Leaf 1 ''boom'' True]))
             (?s\<lparr> listener := Closing, waiter := None \<rparr>)"
    unfolding failing_run by (simp add: Wait_step_def Wait_result_eq)
  from Wait_nil_iff_no_errors [OF r] r show ?thesis unfolding failing_run by simp
qed

text \<open>
  C8. In every run without a submission, a call of \<open>Wait\<close> returns \<open>nil\<close> at its first
  step, so it does not block, and the listener is not started.
\<close>

theorem Wait_without_submission:
  "submissions evs New = 0 \<Longrightarrow>
     (\<exists>s'. Wait_step (exec evs New) = Returned None s' \<and> listener s' = NotStarted
           \<and> \<not> listeningStarted s')"
  using never_submitted [of evs] by (simp add: Wait_step_def)

theorem Wait_without_submission_witness:
  "submissions [CallSetLimit 2] New = 0
   \<and> (\<exists>s'. Wait_step (exec [CallSetLimit 2] New) = Returned None s'
           \<and> listener s' = NotStarted \<and> \<not> listeningStarted s')"
proof -
  have h: "submissions [CallSetLimit 2] New = 0" by simp
  from Wait_without_submission [OF h] h show ?thesis by simp
qed

text \<open>
  C10. In every run without a submission, a call of \<open>Wait\<close> leaves the state as it was, so
  the run with that call and the run without it end in the same state, whatever follows.
\<close>

theorem Wait_without_submission_no_effect:
  "submissions evs New = 0 \<Longrightarrow>
     Wait_step (exec evs New) = Returned None (exec evs New)
     \<and> apply_event StepWait (exec evs New) = exec evs New
     \<and> exec (evs @ StepWait # evs') New = exec (evs @ evs') New"
proof -
  assume a: "submissions evs New = 0"
  have ex: "exec (xs @ ys) s = exec ys (exec xs s)" for xs ys s
    by (induction xs arbitrary: s) simp_all
  have w: "Wait_step (exec evs New) = Returned None (exec evs New)"
    using never_submitted [OF a] by (simp add: Wait_step_def)
  then have "apply_event StepWait (exec evs New) = exec evs New"
    by (simp add: state_of_def)
  with w show ?thesis by (simp add: ex)
qed

theorem Wait_without_submission_no_effect_witness:
  "submissions [CallSetLimit 2] New = 0
   \<and> Wait_step (exec [CallSetLimit 2] New) = Returned None (exec [CallSetLimit 2] New)
   \<and> apply_event StepWait (exec [CallSetLimit 2] New) = exec [CallSetLimit 2] New
   \<and> exec ([CallSetLimit 2] @ StepWait # [CallTryGo (Return None), StepWait]) New
       = exec ([CallSetLimit 2] @ [CallTryGo (Return None), StepWait]) New"
proof -
  have h: "submissions [CallSetLimit 2] New = 0" by simp
  from Wait_without_submission_no_effect [OF h, of "[CallTryGo (Return None), StepWait]"] h
  show ?thesis by simp
qed

text \<open>
  C9, as stated, fails: a first call of \<open>Wait\<close> on a group without submissions returns, a
  task is then submitted and runs to its end, and the second call of \<open>Wait\<close> returns
  \<open>nil\<close> instead of panicking.
\<close>

theorem second_Wait_counterexample:
  "Wait_step New = Returned None New
   \<and> 0 < submissions [StepWait, CallGo (Return None),
                       StepTask 0, StepTask 0, StepTask 0, StepTask 0,
                       StepWait, StepWait, StepWait, StepListener] New
   \<and> Wait_step (exec [StepWait, CallGo (Return None),
                       StepTask 0, StepTask 0, StepTask 0, StepTask 0,
                       StepWait, StepWait, StepWait, StepListener] New)
       = Returned None
           \<lparr> wg = 0, semaphore = None, finishedChan_closed = False, errorChan_closed = True,
             listeningStarted = True, listeningRoutineStarter = True, listener = Closing,
             accumulatedErrors = [], tasks = [(Return None, Exited)],
             waiter = None, crashed = False \<rparr>"
  by (simp add: New_def Go_def startListening_def state_of_def task_step_def
      Wait_step_def listener_step_def Wait_result_eq)

text \<open>
  C9, amended. In every run in which a task has been submitted before a call of \<open>Wait\<close>
  returns, whatever happens afterwards (steps of goroutines and further calls, submissions
  included), a later call of \<open>Wait\<close> never returns: it passes the test of
  \<open>listeningStarted\<close>, waits in \<open>g.wg.Wait()\<close> while the counter is not zero, and panics
  at \<open>close(g.errorChan)\<close>, the channel being closed already; it never reaches the receive.
  When no goroutine is outstanding at the call, as is the case right after the first
  \<open>Wait\<close>, the call panics at its third step under every interleaving of the goroutines.
\<close>

theorem Wait_after_returned_Wait:
  assumes first: "Wait_step (exec evs New) = Returned r s1" and sub: "0 < submissions evs New"
  shows "(\<forall>evs'.
            (\<forall>r' s'. Wait_step (exec evs' s1) \<noteq> Returned r' s')
          \<and> (waiter (exec evs' s1) = None \<longrightarrow>
               Wait_step (exec evs' s1)
                 = Continues ((exec evs' s1)\<lparr> waiter := Some AtWgWait \<rparr>))
          \<and> (waiter (exec evs' s1) = Some AtWgWait \<longrightarrow>
               Wait_step (exec evs' s1)
                 = (if wg (exec evs' s1) = 0
                    then Continues ((exec evs' s1)\<lparr> waiter := Some AtClose \<rparr>) else Blocks))
          \<and> (waiter (exec evs' s1) = Some AtClose \<longrightarrow>
               Wait_step (exec evs' s1) = Panicked ''close of closed channel'')
          \<and> waiter (exec evs' s1) \<noteq> Some AtRecv
          \<and> (waiter (exec evs' s1) = None \<and> wg (exec evs' s1) = 0 \<longrightarrow>
               (\<forall>gs1 gs2 gs3.
                  list_all goroutine_step gs1 \<and> list_all goroutine_step gs2
                  \<and> list_all goroutine_step gs3 \<longrightarrow>
                  (\<exists>a b. Wait_step (exec gs1 (exec evs' s1)) = Continues a
                       \<and> Wait_step (exec gs2 a) = Continues b
                       \<and> Wait_step (exec gs3 b) = Panicked ''close of closed channel''))))
         \<and> waiter s1 = None \<and> wg s1 = 0"
proof -
  from after_first_Wait [OF first sub]
  have d1: "drained s1" and w1: "waiter s1 = None" and c1: "closed_for_good s1" by simp_all
  have i1: "invariant s1" by (rule invariant_after_first_Wait [OF first])
  have main: "(\<forall>r' s'. Wait_step (exec evs' s1) \<noteq> Returned r' s')
          \<and> (waiter (exec evs' s1) = None \<longrightarrow>
               Wait_step (exec evs' s1)
                 = Continues ((exec evs' s1)\<lparr> waiter := Some AtWgWait \<rparr>))
          \<and> (waiter (exec evs' s1) = Some AtWgWait \<longrightarrow>
               Wait_step (exec evs' s1)
                 = (if wg (exec evs' s1) = 0
                    then Continues ((exec evs' s1)\<lparr> waiter := Some AtClose \<rparr>) else Blocks))
          \<and> (waiter (exec evs' s1) = Some AtClose \<longrightarrow>
               Wait_step (exec evs' s1) = Panicked ''close of closed channel'')
          \<and> waiter (exec evs' s1) \<noteq> Some AtRecv
          \<and> (waiter (exec evs' s1) = None \<and> wg (exec evs' s1) = 0 \<longrightarrow>
               (\<forall>gs1 gs2 gs3.
                  list_all goroutine_step gs1 \<and> list_all goroutine_step gs2
                  \<and> list_all goroutine_step gs3 \<longrightarrow>
                  (\<exists>a b. Wait_step (exec gs1 (exec evs' s1)) = Continues a
                       \<and> Wait_step (exec gs2 a) = Continues b
                       \<and> Wait_step (exec gs3 b) = Panicked ''close of closed channel'')))"
      for evs'
    proof -
      let ?s = "exec evs' s1"
      have c: "closed_for_good ?s" by (rule closed_for_good_exec [OF c1])
      have i: "invariant ?s" by (rule invariant_exec [OF i1])
      note ws = closed_for_good_Wait_step [OF c]
      have p1: "\<forall>r' s'. Wait_step ?s \<noteq> Returned r' s'"
        using closed_for_good_Wait [OF c] by blast
      have p2: "waiter ?s = None \<longrightarrow> Wait_step ?s = Continues (?s\<lparr> waiter := Some AtWgWait \<rparr>)"
        using ws by simp
      have p3: "waiter ?s = Some AtWgWait \<longrightarrow>
               Wait_step ?s = (if wg ?s = 0
                    then Continues (?s\<lparr> waiter := Some AtClose \<rparr>) else Blocks)"
        using ws by simp
      have p4: "waiter ?s = Some AtClose \<longrightarrow> Wait_step ?s = Panicked ''close of closed channel''"
        using ws by simp
      have p5: "waiter ?s \<noteq> Some AtRecv" using c by (simp add: closed_for_good_def)
      have p6: "\<exists>a b. Wait_step (exec gs1 ?s) = Continues a
                       \<and> Wait_step (exec gs2 a) = Continues b
                       \<and> Wait_step (exec gs3 b) = Panicked ''close of closed channel''"
        if "waiter ?s = None \<and> wg ?s = 0"
          and "list_all goroutine_step gs1 \<and> list_all goroutine_step gs2
                  \<and> list_all goroutine_step gs3" for gs1 gs2 gs3
      proof -
        from that have w: "waiter ?s = None" and z: "wg ?s = 0"
          and g1: "list_all goroutine_step gs1" and g2: "list_all goroutine_step gs2"
          and g3: "list_all goroutine_step gs3" by simp_all
        show ?thesis by (rule drained_Wait_panics [OF idle_drained [OF i c z] w g1 g2 g3])
      qed
      from p1 p2 p3 p4 p5 p6 show ?thesis by blast
    qed
  from d1 have "wg s1 = 0" by (simp add: drained_def)
  with main w1 show ?thesis by blast
qed

theorem Wait_after_returned_Wait_witness:
  "Wait_step (exec [CallGo (Return (Some (Leaf 1 ''boom'' True))),
         StepTask 0, StepTask 0, StepTask 0, StepTask 0, StepTask 0,
         StepWait, StepWait, StepWait, StepListener] New)
     = Returned (Some (JoinError [Leaf 1 ''boom'' True]))
         ((exec [CallGo (Return (Some (Leaf 1 ''boom'' True))),
         StepTask 0, StepTask 0, StepTask 0, StepTask 0, StepTask 0,
         StepWait, StepWait, StepWait, StepListener] New)\<lparr> listener := Closing, waiter := None \<rparr>)
   \<and> 0 < submissions [CallGo (Return (Some (Leaf 1 ''boom'' True))),
         StepTask 0, StepTask 0, StepTask 0, StepTask 0, StepTask 0,
         StepWait, StepWait, StepWait, StepListener] New
   \<and> list_all goroutine_step [StepListener] \<and> list_all goroutine_step [StepTask 0]
   \<and> list_all goroutine_step []
   \<and> (\<exists>a b. Wait_step (exec [StepListener]
               ((exec [CallGo (Return (Some (Leaf 1 ''boom'' True))),
         StepTask 0, StepTask 0, StepTask 0, StepTask 0, StepTask 0,
         StepWait, StepWait, StepWait, StepListener] New)\<lparr> listener := Closing, waiter := None \<rparr>))
             = Continues a
          \<and> Wait_step (exec [StepTask 0] a) = Continues b
          \<and> Wait_step (exec [] b) = Panicked ''close of closed channel'')"
proof -
  let ?s = "exec [CallGo (Return (Some (Leaf 1 ''boom'' True))),
         StepTask 0, StepTask 0, StepTask 0, StepTask 0, StepTask 0,
         StepWait, StepWait, StepWait, StepListener] New"
  let ?s1 = "?s\<lparr> listener := Closing, waiter := None \<rparr>"
  have r: "Wait_step ?s = Returned (Some (JoinError [Leaf 1 ''boom'' True])) ?s1"
    unfolding failing_run by (simp add: Wait_step_def Wait_result_eq)
  have n: "0 < submissions [CallGo (Return (Some (Leaf 1 ''boom'' True))),
         StepTask 0, StepTask 0, StepTask 0, StepTask 0, StepTask 0,
         StepWait, StepWait, StepWait, StepListener] New"
    by (simp only: failing_run_submissions)
  have g: "list_all goroutine_step [StepListener] \<and> list_all goroutine_step [StepTask 0]
           \<and> list_all goroutine_step []" by simp
  note t = Wait_after_returned_Wait [OF r n]
  from t have idle: "waiter ?s1 = None \<and> wg ?s1 = 0" by blast
  from t have "waiter (exec [] ?s1) = None \<and> wg (exec [] ?s1) = 0 \<longrightarrow>
               (\<forall>gs1 gs2 gs3.
                  list_all goroutine_step gs1 \<and> list_all goroutine_step gs2
                  \<and> list_all goroutine_step gs3 \<longrightarrow>
                  (\<exists>a b. Wait_step (exec gs1 (exec [] ?s1)) = Continues a
                       \<and> Wait_step (exec gs2 a) = Continues b
                       \<and> Wait_step (exec gs3 b) = Panicked ''close of closed channel''))"
    by blast
  with idle have "\<forall>gs1 gs2 gs3.
                  list_all goroutine_step gs1 \<and> list_all goroutine_step gs2
                  \<and> list_all goroutine_step gs3 \<longrightarrow>
                  (\<exists>a b. Wait_step (exec gs1 ?s1) = Continues a
                       \<and> Wait_step (exec gs2 a) = Continues b
                       \<and> Wait_step (exec gs3 b) = Panicked ''close of closed channel'')"
    by (simp only: exec.simps) blast
  with g have "\<exists>a b. Wait_step (exec [StepListener] ?s1) = Continues a
                       \<and> Wait_step (exec [StepTask 0] a) = Continues b
                       \<and> Wait_step (exec [] b) = Panicked ''close of closed channel''"
    by blast
  with r n g show ?thesis by blast
qed

text \<open>
  C3, as stated, fails where it says that each entry can be found in the aggregate: for a
  task that returns an error whose dynamic type is not comparable, \<open>errors.Is\<close> does not
  find that error in the aggregate returned by \<open>Wait\<close>, of which it is the one entry.
\<close>

theorem Wait_aggregate_counterexample:
  "Wait_step (exec [CallGo (Return (Some (Leaf 1 ''bad'' False))),
         StepTask 0, StepTask 0, StepTask 0, StepTask 0, StepTask 0,
         StepWait, StepWait, StepWait, StepListener] New)
     = Returned (Some (JoinError [Leaf 1 ''bad'' False]))
         \<lparr> wg = 0, semaphore = None, finishedChan_closed = False, errorChan_closed = True,
           listeningStarted = True, listeningRoutineStarter = True, listener = Closing,
           accumulatedErrors = [Leaf 1 ''bad'' False],
           tasks = [(Return (Some (Leaf 1 ''bad'' False)), Exited)],
           waiter = None, crashed = False \<rparr>
   \<and> length (filter failed (tasks (exec [CallGo (Return (Some (Leaf 1 ''bad'' False))),
         StepTask 0, StepTask 0, StepTask 0, StepTask 0, StepTask 0,
         StepWait, StepWait, StepWait, StepListener] New))) = 1
   \<and> errors_Is (\<lambda>a b. Some (a = b)) (Some (JoinError [Leaf 1 ''bad'' False]))
        (Some (Leaf 1 ''bad'' False)) = Some False"
  unfolding one_failure_run
  by (simp add: Wait_step_def Wait_result_eq errors_Is_def equals_target_def)

text \<open>
  C3, amended. In every run in which exactly \<open>K > 0\<close> submitted tasks have failed when \<open>Wait\<close>
  returns, \<open>Wait\<close> returns an aggregate whose list has exactly \<open>K\<close> entries, which are the
  failures of the tasks (as a multiset), in the order in which the listener received them.
  Every failure is an element of that list; it is found in the aggregate by \<open>errors.Is\<close>
  when its type is comparable, \<open>==\<close> holds of it and itself, and \<open>==\<close> panics on no two
  values of the user's error types.
\<close>

theorem Wait_returns_all_failures:
  assumes ret: "Wait_step (exec evs New) = Returned r s'"
    and K: "K = length (filter failed (tasks (exec evs New)))" and pos: "0 < K"
  shows "\<exists>errs. r = Some (JoinError errs)
           \<and> length errs = K
           \<and> mset errs = mset (failures (tasks (exec evs New)))
           \<and> errs = received evs New
           \<and> (\<forall>e \<in> set (failures (tasks (exec evs New))).
                 e \<in> set errs
                 \<and> (\<forall>eq. comparable e \<and> go_eq eq e e = Some True \<and> (\<forall>a b. eq a b \<noteq> None)
                        \<longrightarrow> errors_Is eq r (Some e) = Some True))"
proof -
  let ?s = "exec evs New"
  have inv: "invariant ?s" by (rule invariant_reachable)
  from K pos have "tasks ?s \<noteq> []" by auto
  with inv have started: "listeningStarted ?s" by (simp add: invariant_def inv_flags_def)
  with Wait_returns_cases [OF inv ret]
  have w: "waiter ?s = Some AtRecv" and l: "listener ?s = Sending"
    and r: "r = Wait_result (accumulatedErrors ?s)" by auto
  from inv have iw: "inv_waiter ?s" and il: "inv_listener ?s" and it: "inv_tasks ?s"
    by (simp_all add: invariant_def)
  from iw w have "wg ?s = 0" by (simp add: inv_waiter_def)
  moreover from it have "wg ?s = int (length (filter live (tasks ?s)))"
    by (simp add: inv_tasks_def)
  ultimately have "filter live (tasks ?s) = []" by simp
  then have "list_all (\<lambda>t. snd t = Exited) (tasks ?s)"
    by (auto simp: filter_empty_conv list_all_iff)
  then have "reports (tasks ?s) = mset (failures (tasks ?s))" by (rule reports_all_exited)
  moreover from il l have "mset (accumulatedErrors ?s) = reports (tasks ?s)"
    by (simp add: inv_listener_def)
  ultimately have m: "mset (accumulatedErrors ?s) = mset (failures (tasks ?s))" by simp
  then have len: "length (accumulatedErrors ?s) = K"
    using K length_failures [of "tasks ?s"] by (metis size_mset)
  with pos have ne: "accumulatedErrors ?s \<noteq> []" by auto
  with r have r': "r = Some (JoinError (accumulatedErrors ?s))" by (simp add: Wait_result_eq)
  have rec: "accumulatedErrors ?s = received evs New"
    using acc_exec [OF invariant_New, of evs] by (simp add: New_def)
  have "e \<in> set (accumulatedErrors ?s)
        \<and> (\<forall>eq. comparable e \<and> go_eq eq e e = Some True \<and> (\<forall>a b. eq a b \<noteq> None)
               \<longrightarrow> errors_Is eq r (Some e) = Some True)"
    if "e \<in> set (failures (tasks ?s))" for e
  proof -
    from that m have "e \<in> set (accumulatedErrors ?s)" by (metis set_mset_mset)
    then show ?thesis using r' by (simp add: errors_Is_member)
  qed
  with r' len m rec show ?thesis by blast
qed

theorem Wait_returns_all_failures_witness:
  "Wait_step (exec [CallGo (Return (Some (Leaf 1 ''boom'' True))),
         CallTryGo (Panic (OtherValue ''kaboom'') ''goroutine 7 [running]''),
         StepTask 1, StepTask 1, StepTask 0, StepTask 0, StepTask 0,
         StepTask 0, StepTask 1, StepTask 1, StepTask 0,
         StepWait, StepWait, StepWait, StepListener] New)
     = Returned (Some (JoinError [recovered (OtherValue ''kaboom'') ''goroutine 7 [running]'',
                                  Leaf 1 ''boom'' True]))
         ((exec [CallGo (Return (Some (Leaf 1 ''boom'' True))),
         CallTryGo (Panic (OtherValue ''kaboom'') ''goroutine 7 [running]''),
         StepTask 1, StepTask 1, StepTask 0, StepTask 0, StepTask 0,
         StepTask 0, StepTask 1, StepTask 1, StepTask 0,
         StepWait, StepWait, StepWait, StepListener] New)\<lparr> listener := Closing, waiter := None \<rparr>)
   \<and> (2::nat) = length (filter failed (tasks (exec [CallGo (Return (Some (Leaf 1 ''boom'' True))),
         CallTryGo (Panic (OtherValue ''kaboom'') ''goroutine 7 [running]''),
         StepTask 1, StepTask 1, StepTask 0, StepTask 0, StepTask 0,
         StepTask 0, StepTask 1, StepTask 1, StepTask 0,
         StepWait, StepWait, StepWait, StepListener] New)))
   \<and> (0::nat) < 2
   \<and> (\<exists>errs. Some (JoinError [recovered (OtherValue ''kaboom'') ''goroutine 7 [running]'',
                                Leaf 1 ''boom'' True]) = Some (JoinError errs)
          \<and> length errs = 2 \<and> errs = received [CallGo (Return (Some (Leaf 1 ''boom'' True))),
         CallTryGo (Panic (OtherValue ''kaboom'') ''goroutine 7 [running]''),
         StepTask 1, StepTask 1, StepTask 0, StepTask 0, StepTask 0,
         StepTask 0, StepTask 1, StepTask 1, StepTask 0,
         StepWait, StepWait, StepWait, StepListener] New)
   \<and> received [CallGo (Return (Some (Leaf 1 ''boom'' True))),
         CallTryGo (Panic (OtherValue ''kaboom'') ''goroutine 7 [running]''),
         StepTask 1, StepTask 1, StepTask 0, StepTask 0, StepTask 0,
         StepTask 0, StepTask 1, StepTask 1, StepTask 0,
         StepWait, StepWait, StepWait, StepListener] New
       = [recovered (OtherValue ''kaboom'') ''goroutine 7 [running]'', Leaf 1 ''boom'' True]"
proof -
  let ?s = "exec [CallGo (Return (Some (Leaf 1 ''boom'' True))),
         CallTryGo (Panic (OtherValue ''kaboom'') ''goroutine 7 [running]''),
         StepTask 1, StepTask 1, StepTask 0, StepTask 0, StepTask 0,
         StepTask 0, StepTask 1, StepTask 1, StepTask 0,
         StepWait, StepWait, StepWait, StepListener] New"
  have r: "Wait_step ?s
     = Returned (Some (JoinError [recovered (OtherValue ''kaboom'') ''goroutine 7 [running]'',
                                  Leaf 1 ''boom'' True]))
         (?s\<lparr> listener := Closing, waiter := None \<rparr>)"
    unfolding two_failures_run by (simp add: Wait_step_def Wait_result_eq)
  have k: "(2::nat) = length (filter failed (tasks ?s))"
    unfolding two_failures_run by simp
  have p: "(0::nat) < 2" by simp
  from Wait_returns_all_failures [OF r k p] obtain errs where
    e: "Some (JoinError [recovered (OtherValue ''kaboom'') ''goroutine 7 [running]'',
                         Leaf 1 ''boom'' True]) = Some (JoinError errs)"
      "length errs = 2" "errs = received [CallGo (Return (Some (Leaf 1 ''boom'' True))),
         CallTryGo (Panic (OtherValue ''kaboom'') ''goroutine 7 [running]''),
         StepTask 1, StepTask 1, StepTask 0, StepTask 0, StepTask 0,
         StepTask 0, StepTask 1, StepTask 1, StepTask 0,
         StepWait, StepWait, StepWait, StepListener] New" by blast
  from e(1) have x: "errs = [recovered (OtherValue ''kaboom'') ''goroutine 7 [running]'',
                             Leaf 1 ''boom'' True]" by simp
  have rec: "received [CallGo (Return (Some (Leaf 1 ''boom'' True))),
         CallTryGo (Panic (OtherValue ''kaboom'') ''goroutine 7 [running]''),
         StepTask 1, StepTask 1, StepTask 0, StepTask 0, StepTask 0,
         StepTask 0, StepTask 1, StepTask 1, StepTask 0,
         StepWait, StepWait, StepWait, StepListener] New
       = [recovered (OtherValue ''kaboom'') ''goroutine 7 [running]'', Leaf 1 ''boom'' True]"
  proof -
    from e(3) have "received [CallGo (Return (Some (Leaf 1 ''boom'' True))),
         CallTryGo (Panic (OtherValue ''kaboom'') ''goroutine 7 [running]''),
         StepTask 1, StepTask 1, StepTask 0, StepTask 0, StepTask 0,
         StepTask 0, StepTask 1, StepTask 1, StepTask 0,
         StepWait, StepWait, StepWait, StepListener] New = errs" by (rule sym)
    also note x
    finally show ?thesis .
  qed
  have ex: "\<exists>errs. Some (JoinError [recovered (OtherValue ''kaboom'') ''goroutine 7 [running]'',
                                Leaf 1 ''boom'' True]) = Some (JoinError errs)
          \<and> length errs = 2 \<and> errs = received [CallGo (Return (Some (Leaf 1 ''boom'' True))),
         CallTryGo (Panic (OtherValue ''kaboom'') ''goroutine 7 [running]''),
         StepTask 1, StepTask 1, StepTask 0, StepTask 0, StepTask 0,
         StepTask 0, StepTask 1, StepTask 1, StepTask 0,
         StepWait, StepWait, StepWait, StepListener] New"
    by (intro exI [of _ errs] conjI e)
  show ?thesis by (intro conjI r k p ex rec)
qed

section \<open>Panics of tasks\<close>

text \<open>
  C2, as stated, fails: for a task that panics with an error whose dynamic type is not
  comparable, \<open>errors.Is\<close> does not find the payload in the reported failure, because
  \<open>errors.Is\<close> never compares a target of such a type.
\<close>

theorem recovered_panic_counterexample:
  "errors_Is (\<lambda>a b. Some (a = b))
     (Some (recovered (ErrorValue (Leaf 1 ''bad'' False)) ''goroutine 7 [running]''))
     (Some (Leaf 1 ''bad'' False)) = Some False"
  by (simp add: errors_Is_def recovered_def Errorf_w_w_s_def ErrPanicRecovered_def
      equals_target_def)

text \<open>
  C2, amended. For every task that ends by a panic, the goroutine goes on to send the
  error built by \<open>done\<close>; the listener, when it takes it, appends it to its list; and in
  every run, once the goroutine stands behind that send, the error is in the listener's
  list. The error matches \<open>ErrPanicRecovered\<close> under \<open>errors.Is\<close>, whatever \<open>==\<close> does on the
  user's values, and its message ends with the stack trace. When the payload is an error,
  the message contains the payload's message, and \<open>errors.Is\<close> finds the payload in the
  error when the payload's type is comparable and \<open>==\<close> holds of the payload and itself
  (it does not when \<open>==\<close> panics on it or is false of it, as for a NaN). When the payload
  is another value, the message contains its text.
\<close>

theorem recovered_panic_report:
  "task_move (Panic msg stack) AtFnc s = Some (s, AtSendRecovered (recovered msg stack))
   \<and> (\<not> errorChan_closed s \<and> listener s = Listening \<longrightarrow>
        task_move (Panic msg stack) (AtSendRecovered (recovered msg stack)) s
          = Some (s\<lparr> accumulatedErrors := accumulatedErrors s @ [recovered msg stack] \<rparr>,
                  AtRelease))
   \<and> (\<forall>evs i pc.
        i < length (tasks (exec evs New)) \<and> tasks (exec evs New) ! i = (Panic msg stack, pc)
        \<and> (pc = AtRelease \<or> pc = AtWgDone \<or> pc = Exited)
        \<and> (listener (exec evs New) = Listening \<or> listener (exec evs New) = Sending) \<longrightarrow>
        recovered msg stack \<in> set (accumulatedErrors (exec evs New)))
   \<and> errors_Is eq (Some (recovered msg stack)) (Some ErrPanicRecovered) = Some True
   \<and> (\<forall>val. msg = ErrorValue val \<longrightarrow>
         Error (recovered msg stack) = ''recovered from panic: '' @ Error val @ newline @ stack
         \<and> (comparable val \<and> go_eq eq val val = Some True \<longrightarrow>
              errors_Is eq (Some (recovered msg stack)) (Some val) = Some True))
   \<and> (\<forall>val. msg = OtherValue val \<longrightarrow>
         Error (recovered msg stack) = ''recovered from panic: '' @ val @ newline @ stack)"
proof -
  have a: "task_move (Panic msg stack) AtFnc s = Some (s, AtSendRecovered (recovered msg stack))"
    by simp
  have b: "task_move (Panic msg stack) (AtSendRecovered (recovered msg stack)) s
          = Some (s\<lparr> accumulatedErrors := accumulatedErrors s @ [recovered msg stack] \<rparr>,
                  AtRelease)"
    if "\<not> errorChan_closed s \<and> listener s = Listening"
    using that by (simp add: send_error_def)
  have c: "recovered msg stack \<in> set (accumulatedErrors (exec evs New))"
    if "i < length (tasks (exec evs New)) \<and> tasks (exec evs New) ! i = (Panic msg stack, pc)
        \<and> (pc = AtRelease \<or> pc = AtWgDone \<or> pc = Exited)
        \<and> (listener (exec evs New) = Listening \<or> listener (exec evs New) = Sending)"
    for evs i pc
    using reported_in_accumulatedErrors [OF invariant_reachable, of i evs "Panic msg stack" pc] that
    by simp
  have d: "Error (recovered (ErrorValue val) stack)
             = ''recovered from panic: '' @ Error val @ newline @ stack" for val
    by (simp add: recovered_def Errorf_w_w_s_def ErrPanicRecovered_def)
  have e: "Error (recovered (OtherValue val) stack)
             = ''recovered from panic: '' @ val @ newline @ stack" for val
    by (simp add: recovered_def Errorf_w_v_s_def ErrPanicRecovered_def)
  from a b c d e recovered_Is_marker recovered_Is_payload show ?thesis by blast
qed

theorem recovered_panic_report_witness:
  "\<not> errorChan_closed (exec [CallTryGo (Panic (ErrorValue (Leaf 1 ''boom'' True)) ''goroutine 7 [running]''), StepTask 0] New)
   \<and> listener (exec [CallTryGo (Panic (ErrorValue (Leaf 1 ''boom'' True)) ''goroutine 7 [running]''), StepTask 0] New) = Listening
   \<and> task_move (Panic (ErrorValue (Leaf 1 ''boom'' True)) ''goroutine 7 [running]'')
        (AtSendRecovered (recovered (ErrorValue (Leaf 1 ''boom'' True)) ''goroutine 7 [running]''))
        (exec [CallTryGo (Panic (ErrorValue (Leaf 1 ''boom'' True)) ''goroutine 7 [running]''), StepTask 0] New)
      = Some ((exec [CallTryGo (Panic (ErrorValue (Leaf 1 ''boom'' True)) ''goroutine 7 [running]''), StepTask 0] New)
                \<lparr> accumulatedErrors := [recovered (ErrorValue (Leaf 1 ''boom'' True)) ''goroutine 7 [running]''] \<rparr>,
              AtRelease)
   \<and> comparable (Leaf 1 ''boom'' True)
   \<and> go_eq (\<lambda>a b. Some (a = b)) (Leaf 1 ''boom'' True) (Leaf 1 ''boom'' True) = Some True
   \<and> errors_Is (\<lambda>a b. Some (a = b))
        (Some (recovered (ErrorValue (Leaf 1 ''boom'' True)) ''goroutine 7 [running]''))
        (Some (Leaf 1 ''boom'' True)) = Some True
   \<and> errors_Is (\<lambda>a b. Some (a = b))
        (Some (recovered (ErrorValue (Leaf 1 ''boom'' True)) ''goroutine 7 [running]''))
        (Some ErrPanicRecovered) = Some True
   \<and> Error (recovered (OtherValue ''kaboom'') ''goroutine 7 [running]'')
        = ''recovered from panic: '' @ ''kaboom'' @ newline @ ''goroutine 7 [running]''"
proof -
  let ?f = "Panic (ErrorValue (Leaf 1 ''boom'' True)) ''goroutine 7 [running]''"
  have s: "exec [CallTryGo ?f, StepTask 0] New
     = \<lparr> wg = 1, semaphore = None, finishedChan_closed = False, errorChan_closed = False,
         listeningStarted = True, listeningRoutineStarter = True, listener = Listening,
         accumulatedErrors = [],
         tasks = [(?f, AtSendRecovered (recovered (ErrorValue (Leaf 1 ''boom'' True))
                                          ''goroutine 7 [running]''))],
         waiter = None, crashed = False \<rparr>"
    by (simp add: New_def TryGo_def startListening_def state_of_def task_step_def)
  have c: "comparable (Leaf 1 ''boom'' True)" by simp
  have g: "go_eq (\<lambda>a b. Some (a = b)) (Leaf 1 ''boom'' True) (Leaf 1 ''boom'' True) = Some True"
    by simp
  from recovered_panic_report
    [of "ErrorValue (Leaf 1 ''boom'' True)" "''goroutine 7 [running]''"
      "exec [CallTryGo ?f, StepTask 0] New" "\<lambda>a b. Some (a = b)"]
    recovered_panic_report [of "OtherValue ''kaboom''" "''goroutine 7 [running]''" New] c g
  show ?thesis unfolding s by simp
qed

section \<open>The admission gate\<close>

text \<open>
  C4. In every run, \<open>SetLimit\<close> panics exactly when a task has been submitted before (by
  \<open>Go\<close>, or by a call of \<open>TryGo\<close> that returned \<open>true\<close>). Before any submission it returns:
  for a limit that is not positive it sets \<open>semaphore\<close> to \<open>nil\<close>, and for a positive limit
  to an empty buffered channel of that capacity.
\<close>

theorem SetLimit_panics_iff_submitted:
  "((\<exists>m. SetLimit n (exec evs New) = Panicked m) \<longleftrightarrow> 0 < submissions evs New)
   \<and> (submissions evs New = 0 \<longrightarrow>
        (n \<le> 0 \<longrightarrow> SetLimit n (exec evs New) = Returned () ((exec evs New)\<lparr> semaphore := None \<rparr>))
      \<and> (0 < n \<longrightarrow> SetLimit n (exec evs New)
             = Returned () ((exec evs New)\<lparr> semaphore := Some (nat n, 0) \<rparr>)))"
proof (cases "0 < submissions evs New")
  case True
  then have "listeningStarted (exec evs New)" by (simp add: started_iff_submitted)
  with True show ?thesis by (simp add: SetLimit_def)
next
  case False
  then have "\<not> listeningStarted (exec evs New)" by (simp add: started_iff_submitted)
  with False show ?thesis by (simp add: SetLimit_def)
qed

theorem SetLimit_panics_iff_submitted_witness:
  "submissions [] New = 0 \<and> (0::int) < 2
   \<and> SetLimit 2 (exec [] New) = Returned () ((exec [] New)\<lparr> semaphore := Some (2, 0) \<rparr>)
   \<and> 0 < submissions [CallGo (Return None)] New
   \<and> (\<exists>m. SetLimit 2 (exec [CallGo (Return None)] New) = Panicked m)"
proof -
  have a: "submissions [] New = 0" by simp
  have b: "0 < submissions [CallGo (Return None)] New" by (simp add: New_def)
  from SetLimit_panics_iff_submitted [of 2 "[]"] SetLimit_panics_iff_submitted
    [of 2 "[CallGo (Return None)]"] a b
  show ?thesis by simp
qed

text \<open>
  C5, as stated, fails: with the gate at capacity, a call of \<open>Go\<close> does not block its
  caller.
\<close>

theorem Go_blocks_caller_counterexample:
  "semaphore (exec [CallSetLimit 1, CallTryGo (Return None)] New) = Some (1, 1)
   \<and> Go (Return None) (exec [CallSetLimit 1, CallTryGo (Return None)] New) \<noteq> Blocks"
  by (simp add: New_def SetLimit_def TryGo_def Go_def startListening_def state_of_def Let_def)

text \<open>
  C5, amended. With the gate at capacity, a call of \<open>Go\<close> returns to its caller at once and
  signals no admission failure; the goroutine it has spawned stands before the send of
  its token and cannot proceed while the gate is at capacity; when a slot is free, that
  goroutine takes it and goes on to run the task.
\<close>

theorem Go_returns_goroutine_waits:
  assumes "semaphore s = Some (c, n)" and "c \<le> n"
  shows "\<exists>s'. Go fnc s = Returned () s'
           \<and> semaphore s' = Some (c, n)
           \<and> tasks s' = tasks s @ [(fnc, AtAcquire)]
           \<and> task_step (length (tasks s)) s' = None
           \<and> (\<forall>m. m < c \<longrightarrow>
                 task_step (length (tasks s)) (s'\<lparr> semaphore := Some (c, m) \<rparr>)
                   = Some (s'\<lparr> semaphore := Some (c, Suc m),
                                tasks := tasks s @ [(fnc, AtFnc)] \<rparr>))"
proof -
  let ?s' = "(startListening s)\<lparr> wg := wg s + 1, tasks := tasks s @ [(fnc, AtAcquire)] \<rparr>"
  have g: "Go fnc s = Returned () ?s'" by (simp add: Go_eq)
  have "semaphore ?s' = Some (c, n)" using assms by simp
  moreover have "tasks ?s' = tasks s @ [(fnc, AtAcquire)]" by simp
  moreover have "task_step (length (tasks s)) ?s' = None"
    using assms by (simp add: task_step_def)
  moreover have "task_step (length (tasks s)) (?s'\<lparr> semaphore := Some (c, m) \<rparr>)
                   = Some (?s'\<lparr> semaphore := Some (c, Suc m),
                                tasks := tasks s @ [(fnc, AtFnc)] \<rparr>)" if "m < c" for m
    using that by (simp add: task_step_def)
  ultimately show ?thesis using g by blast
qed

theorem Go_returns_goroutine_waits_witness:
  "semaphore (exec [CallSetLimit 1, CallTryGo (Return None)] New) = Some (1, 1)
   \<and> (1::nat) \<le> 1
   \<and> (\<exists>s'. Go (Return None) (exec [CallSetLimit 1, CallTryGo (Return None)] New)
               = Returned () s'
           \<and> task_step (length (tasks (exec [CallSetLimit 1, CallTryGo (Return None)] New))) s'
               = None)"
proof -
  have sem: "semaphore (exec [CallSetLimit 1, CallTryGo (Return None)] New) = Some (1, 1)"
    by (simp add: New_def SetLimit_def TryGo_def startListening_def state_of_def)
  from Go_returns_goroutine_waits [OF sem, of "Return None"] sem show ?thesis by auto
qed

text \<open>
  C7. When \<open>TryGo\<close> finds the gate full (the buffered channel holds as many tokens as its
  capacity), it returns \<open>false\<close> and the state it leaves is the state it found: no goroutine
  is added, the counter of the wait group is not incremented, no token is put into the
  channel and the listener is not started.
\<close>

theorem TryGo_full_gate_unchanged:
  "semaphore s = Some (c, n) \<Longrightarrow> c \<le> n \<Longrightarrow> TryGo fnc s = Returned False s"
  by (simp add: TryGo_def)

theorem TryGo_full_gate_unchanged_witness:
  "semaphore (exec [CallSetLimit 1, CallTryGo (Return None)] New) = Some (1, 1)
   \<and> (1::nat) \<le> 1
   \<and> TryGo (Return None) (exec [CallSetLimit 1, CallTryGo (Return None)] New)
       = Returned False (exec [CallSetLimit 1, CallTryGo (Return None)] New)"
proof -
  have sem: "semaphore (exec [CallSetLimit 1, CallTryGo (Return None)] New) = Some (1, 1)"
    by (simp add: New_def SetLimit_def TryGo_def startListening_def state_of_def)
  show ?thesis
    using sem TryGo_full_gate_unchanged [OF sem, of "Return None"] by simp
qed

text \<open>
  C6. For \<open>0 < L < M\<close>, after \<open>SetLimit(L)\<close> on a new group, in every run of \<open>M\<close> calls of
  \<open>TryGo\<close>, interleaved in any way with steps of the goroutines none of which releases a
  slot, the calls return \<open>true\<close> for the first \<open>L\<close> of them and \<open>false\<close> for the other
  \<open>M - L\<close>. This covers every run in which no task has completed, a goroutine releasing
  its slot only after its function has ended.
\<close>

theorem TryGo_first_L_succeed:
  assumes "0 < L" and "L < M" and "M = length (filter TryGo_call evs)"
    and "back_to_back evs (state_of (SetLimit (int L) New) New)"
  shows "TryGo_results evs (state_of (SetLimit (int L) New) New)
           = replicate L True @ replicate (M - L) False"
  using gate_results [OF gate_SetLimit [OF assms(1)] assms(4)] assms(2,3) by simp

theorem TryGo_first_L_succeed_witness:
  "(0::nat) < 1 \<and> (1::nat) < 2
   \<and> 2 = length (filter TryGo_call [CallTryGo (Return None), StepTask 0, CallTryGo (Return None)])
   \<and> back_to_back [CallTryGo (Return None), StepTask 0, CallTryGo (Return None)]
        (state_of (SetLimit (int 1) New) New)
   \<and> TryGo_results [CallTryGo (Return None), StepTask 0, CallTryGo (Return None)]
        (state_of (SetLimit (int 1) New) New) = replicate 1 True @ replicate (2 - 1) False"
proof -
  have a: "(0::nat) < 1" and b: "(1::nat) < 2" by simp_all
  have c: "2 = length (filter TryGo_call
             [CallTryGo (Return None), StepTask 0, CallTryGo (Return None)])" by simp
  have d: "back_to_back [CallTryGo (Return None), StepTask 0, CallTryGo (Return None)]
        (state_of (SetLimit (int 1) New) New)"
    by (simp add: New_def SetLimit_def TryGo_def startListening_def state_of_def task_step_def)
  from TryGo_first_L_succeed [OF a b c d] a b c d show ?thesis by blast
qed

end
